theory Spec2Isabelle
  imports Main "HOL-Library.Monad_Syntax" "HOL-Library.Word"
begin

section \<open>The dynamic array of \<^verbatim>\<open>src/vector.hpp\<close>\<close>

subsection \<open>Exceptions, memory and objects\<close>

text \<open>
  Modelled from the spec: the three exception classes of \<^verbatim>\<open>exceptions.hpp\<close>, a header that
  \<^verbatim>\<open>vector.hpp\<close> includes. The code throws them under the names below; the
  specification calls them OutOfBounds, EmptyContainer and IncompatibleCursors.
\<close>

datatype exception = index_out_of_bound | container_is_empty | invalid_iterator

text \<open>
  Raw memory is a list of blocks; the address that \<^verbatim>\<open>::operator new\<close> returns is the index
  of the block, \<open>None\<close> at an address is a block that was released. A block is a list of
  slots of the size of \<^verbatim>\<open>T\<close>: \<open>None\<close> is a slot with no constructed object, \<open>Some x\<close> a
  live object of value \<open>x\<close>. A pointer \<^verbatim>\<open>T*\<close> is the address of a block (\<open>None\<close> for
  \<^verbatim>\<open>nullptr\<close>) and a slot offset.

  The fields \<^verbatim>\<open>size_\<close> and \<^verbatim>\<open>capacity_\<close> have type \<^verbatim>\<open>size_t\<close>. They are natural
  numbers here: a capacity at which \<^verbatim>\<open>capacity_ * 2\<close> wraps around would need a block of at
  least \<open>2 ^ 63\<close> bytes, which \<^verbatim>\<open>::operator new\<close> cannot return. The result of cursor
  subtraction has type \<^verbatim>\<open>int\<close> and is a 32-bit word.

  Copy construction and assignment of \<^verbatim>\<open>T\<close> copy the value and do not fail, and
  \<^verbatim>\<open>::operator new\<close> always returns a new block.
\<close>

type_synonym addr = nat
type_synonym vid = nat
type_synonym 'a block = "'a option list"
type_synonym ptr = "addr option \<times> int"

text \<open>
  The data members \<^verbatim>\<open>data_\<close>, \<^verbatim>\<open>size_\<close>, \<^verbatim>\<open>capacity_\<close>, \<^verbatim>\<open>ptr_\<close> and
  \<^verbatim>\<open>vec_\<close> are written with the suffix \<open>_m\<close>, since a name cannot end in an underscore.
\<close>

record vector =
  data_m :: "addr option"
  size_m :: nat
  capacity_m :: nat

record 'a state =
  mem :: "'a block option list"
  objs :: "vid \<Rightarrow> vector option"

text \<open>
  A member function maps the state to \<open>Some (Inr r, st')\<close> when it returns \<open>r\<close>, to
  \<open>Some (Inl e, st')\<close> when it throws \<open>e\<close>, and to \<open>None\<close> when it has undefined
  behaviour (a read of a slot with no object, an access outside a block, a call on an
  object that does not exist).
\<close>

type_synonym ('r, 'a) call = "((exception + 'r) \<times> 'a state) option"

definition block_at :: "'a state \<Rightarrow> addr \<Rightarrow> 'a block option" where
  "block_at st a = (if a < length (mem st) then mem st ! a else None)"

definition operator_new :: "nat \<Rightarrow> 'a state \<Rightarrow> addr \<times> 'a state" where
  "operator_new n st = (length (mem st), st\<lparr>mem := mem st @ [Some (replicate n None)]\<rparr>)"

definition operator_delete :: "addr option \<Rightarrow> 'a state \<Rightarrow> 'a state option" where
  "operator_delete p st =
     (case p of
        None \<Rightarrow> Some st
      | Some a \<Rightarrow>
          (case block_at st a of
             None \<Rightarrow> None
           | Some b \<Rightarrow> Some (st\<lparr>mem := (mem st)[a := None]\<rparr>)))"

text \<open>\<open>load p i\<close> reads the object \<^verbatim>\<open>p[i]\<close>.\<close>

definition load :: "addr option \<Rightarrow> nat \<Rightarrow> 'a state \<Rightarrow> 'a option" where
  "load p i st =
     (case p of
        None \<Rightarrow> None
      | Some a \<Rightarrow>
          (case block_at st a of
             None \<Rightarrow> None
           | Some b \<Rightarrow> if i < length b then b ! i else None))"

text \<open>\<open>construct p i x\<close> is the placement \<^verbatim>\<open>new (p + i) T(x)\<close>.\<close>

definition construct :: "addr option \<Rightarrow> nat \<Rightarrow> 'a \<Rightarrow> 'a state \<Rightarrow> 'a state option" where
  "construct p i x st =
     (case p of
        None \<Rightarrow> None
      | Some a \<Rightarrow>
          (case block_at st a of
             None \<Rightarrow> None
           | Some b \<Rightarrow>
               if i < length b then Some (st\<lparr>mem := (mem st)[a := Some (b[i := Some x])]\<rparr>)
               else None))"

text \<open>\<open>assign p i x\<close> is the assignment \<^verbatim>\<open>p[i] = x\<close> to a live object.\<close>

definition assign :: "addr option \<Rightarrow> nat \<Rightarrow> 'a \<Rightarrow> 'a state \<Rightarrow> 'a state option" where
  "assign p i x st =
     (case p of
        None \<Rightarrow> None
      | Some a \<Rightarrow>
          (case block_at st a of
             None \<Rightarrow> None
           | Some b \<Rightarrow>
               if i < length b \<and> b ! i \<noteq> None
               then Some (st\<lparr>mem := (mem st)[a := Some (b[i := Some x])]\<rparr>)
               else None))"

text \<open>\<open>destroy p i\<close> is the destructor call \<^verbatim>\<open>p[i].~T()\<close>.\<close>

definition destroy :: "addr option \<Rightarrow> nat \<Rightarrow> 'a state \<Rightarrow> 'a state option" where
  "destroy p i st =
     (case p of
        None \<Rightarrow> None
      | Some a \<Rightarrow>
          (case block_at st a of
             None \<Rightarrow> None
           | Some b \<Rightarrow>
               if i < length b \<and> b ! i \<noteq> None
               then Some (st\<lparr>mem := (mem st)[a := Some (b[i := None])]\<rparr>)
               else None))"

text \<open>Reading through a pointer (a reference \<^verbatim>\<open>T&\<close>, a cursor position).\<close>

definition load_ptr :: "ptr \<Rightarrow> 'a state \<Rightarrow> 'a option" where
  "load_ptr p st = (if snd p < 0 then None else load (fst p) (nat (snd p)) st)"

definition assign_ptr :: "ptr \<Rightarrow> 'a \<Rightarrow> 'a state \<Rightarrow> 'a state option" where
  "assign_ptr p x st = (if snd p < 0 then None else assign (fst p) (nat (snd p)) x st)"

text \<open>
  A parameter \<^verbatim>\<open>const T &value\<close> is bound to an object, and the callee reads the object
  each time it uses the parameter. \<open>Outside x\<close> is an object of value \<open>x\<close> that is in no
  block (a temporary or a variable of the caller), which no call changes; \<open>Inside p\<close> is
  the object at the pointer \<open>p\<close>, for instance the element that \<^verbatim>\<open>v[1]\<close> refers to.
\<close>

datatype 'a cref = Outside 'a | Inside ptr

definition read_ref :: "'a cref \<Rightarrow> 'a state \<Rightarrow> 'a option" where
  "read_ref r st = (case r of Outside x \<Rightarrow> Some x | Inside p \<Rightarrow> load_ptr p st)"

text \<open>
  A parameter \<^verbatim>\<open>const size_t &ind\<close> is bound to an object of type \<^verbatim>\<open>size_t\<close>, and the
  callee reads the object each time it uses the parameter. \<open>Index n\<close> is an object of
  value \<open>n\<close> that is in no block, which no call changes. Where \<^verbatim>\<open>T\<close> is \<^verbatim>\<open>size_t\<close> the
  parameter can be bound to an element, as in \<^verbatim>\<open>v.erase(v[0])\<close>: \<open>Element p f\<close> is the
  object at the pointer \<open>p\<close>, and \<open>f\<close> reads a \<^verbatim>\<open>T\<close> as a \<^verbatim>\<open>size_t\<close> (the identity
  where \<^verbatim>\<open>T\<close> is \<^verbatim>\<open>size_t\<close>).
\<close>

datatype 'a iref = Index nat | Element ptr "'a \<Rightarrow> nat"

definition read_index :: "'a iref \<Rightarrow> 'a state \<Rightarrow> nat option" where
  "read_index r st =
     (case r of Index n \<Rightarrow> Some n | Element p f \<Rightarrow> map_option f (load_ptr p st))"

subsection \<open>The loops\<close>

text \<open>
  \<^verbatim>\<open>for (; i < n; ++i) new (dst + i + k) T(src[i]);\<close> with the bound \<^verbatim>\<open>size_\<close> and
  \<open>k = 0\<close> in \<^verbatim>\<open>reallocate\<close>, the copy constructor and the assignment operator, and
  \<open>k = 1\<close> in the second copy of \<^verbatim>\<open>insert\<close>.
\<close>

function copy_loop ::
  "addr option \<Rightarrow> addr option \<Rightarrow> nat \<Rightarrow> nat \<Rightarrow> nat \<Rightarrow> 'a state \<Rightarrow> 'a state option" where
  "copy_loop src dst k i n st =
     (if i < n then
        do {
          x \<leftarrow> load src i st;
          st' \<leftarrow> construct dst (i + k) x st;
          copy_loop src dst k (Suc i) n st'
        }
      else Some st)"
  by pat_completeness auto
termination
  by (relation "measure (\<lambda>(src, dst, k, i, n, st). n - i)") auto

text \<open>\<^verbatim>\<open>for (; i < n; ++i) p[i].~T();\<close>\<close>

function destroy_loop :: "addr option \<Rightarrow> nat \<Rightarrow> nat \<Rightarrow> 'a state \<Rightarrow> 'a state option" where
  "destroy_loop p i n st =
     (if i < n then
        do {
          st' \<leftarrow> destroy p i st;
          destroy_loop p (Suc i) n st'
        }
      else Some st)"
  by pat_completeness auto
termination
  by (relation "measure (\<lambda>(p, i, n, st). n - i)") auto

text \<open>
  \<^verbatim>\<open>for (; i < ind; ++i) new (dst + i) T(src[i]);\<close> the first copy of \<^verbatim>\<open>insert\<close>, whose
  bound is the parameter \<^verbatim>\<open>ind\<close>, read at each test. The loop ends at the latest where
  \<open>i\<close> leaves the block \<open>src\<close>, since the read of \<^verbatim>\<open>src[i]\<close> is undefined there.
\<close>

function copy_until ::
  "addr option \<Rightarrow> addr option \<Rightarrow> 'a iref \<Rightarrow> nat \<Rightarrow> 'a state \<Rightarrow> 'a state option" where
  "copy_until src dst ind i st =
     do {
       n \<leftarrow> read_index ind st;
       if i < n then
         do {
           x \<leftarrow> load src i st;
           st' \<leftarrow> construct dst i x st;
           copy_until src dst ind (Suc i) st'
         }
       else Some st
     }"
  by pat_completeness auto
termination
proof (relation "measure (\<lambda>(src, dst, ind, i, st).
    (case src of None \<Rightarrow> 0
     | Some a \<Rightarrow> (case block_at st a of None \<Rightarrow> 0 | Some b \<Rightarrow> length b)) - i)")
  show "wf (measure (\<lambda>(src, dst, ind, i, st).
    (case src of None \<Rightarrow> 0
     | Some a \<Rightarrow> (case block_at st a of None \<Rightarrow> 0 | Some b \<Rightarrow> length b)) - i))"
    by simp
next
  fix src dst :: "addr option" and ind :: "'a iref" and i n :: nat and st st' :: "'a state"
    and x :: 'a
  assume ld: "load src i st = Some x" and cs: "construct dst i x st = Some st'"
  from ld obtain a b where src: "src = Some a" and b: "block_at st a = Some b" "i < length b"
    by (auto simp: load_def split: option.splits if_splits)
  from cs obtain d c where "dst = Some d" and c: "block_at st d = Some c" "i < length c"
    and st': "st' = st\<lparr>mem := (mem st)[d := Some (c[i := Some x])]\<rparr>"
    by (auto simp: construct_def split: option.splits if_splits)
  have "\<exists>b'. block_at st' a = Some b' \<and> length b' = length b"
    using b c st' by (cases "a = d") (auto simp: block_at_def split: if_splits)
  with src b show "((src, dst, ind, Suc i, st'), (src, dst, ind, i, st)) \<in>
    measure (\<lambda>(src, dst, ind, i, st).
      (case src of None \<Rightarrow> 0
       | Some a \<Rightarrow> (case block_at st a of None \<Rightarrow> 0 | Some b \<Rightarrow> length b)) - i)"
    by auto
qed

text \<open>
  \<^verbatim>\<open>for (; i > ind; --i) p[i] = p[i - 1];\<close> the shift of \<^verbatim>\<open>insert\<close>, whose bound is
  the parameter \<^verbatim>\<open>ind\<close>, read at each test.
\<close>

function shift_right :: "addr option \<Rightarrow> nat \<Rightarrow> 'a iref \<Rightarrow> 'a state \<Rightarrow> 'a state option" where
  "shift_right p i ind st =
     do {
       n \<leftarrow> read_index ind st;
       if i > n then
         do {
           x \<leftarrow> load p (i - 1) st;
           st' \<leftarrow> assign p i x st;
           shift_right p (i - 1) ind st'
         }
       else Some st
     }"
  by pat_completeness auto
termination
  by (relation "measure (\<lambda>(p, i, ind, st). i)") auto

text \<open>\<^verbatim>\<open>for (; i < n; ++i) p[i] = p[i + 1];\<close>\<close>

function shift_left :: "addr option \<Rightarrow> nat \<Rightarrow> nat \<Rightarrow> 'a state \<Rightarrow> 'a state option" where
  "shift_left p i n st =
     (if i < n then
        do {
          x \<leftarrow> load p (i + 1) st;
          st' \<leftarrow> assign p i x st;
          shift_left p (Suc i) n st'
        }
      else Some st)"
  by pat_completeness auto
termination
  by (relation "measure (\<lambda>(p, i, n, st). n - i)") auto

declare copy_loop.simps [simp del]
declare destroy_loop.simps [simp del]
declare shift_right.simps [simp del]
declare copy_until.simps [simp del]
declare shift_left.simps [simp del]

subsection \<open>Cursors\<close>

text \<open>
  The classes \<^verbatim>\<open>iterator\<close> and \<^verbatim>\<open>const_iterator\<close>: a position \<^verbatim>\<open>ptr_\<close> and the
  address \<^verbatim>\<open>vec_\<close> of the container that produced the cursor (\<open>None\<close> for
  \<^verbatim>\<open>nullptr\<close>). The address of a container is its key in \<open>objs\<close>.
\<close>

record iterator =
  ptr_m :: ptr
  vec_m :: "vid option"

record const_iterator =
  const_ptr_m :: ptr
  const_vec_m :: "vid option"

text \<open>The constructors \<^verbatim>\<open>iterator(T *ptr, const vector *vec)\<close> of the two classes.\<close>

definition Iterator :: "ptr \<Rightarrow> vid option \<Rightarrow> iterator" where
  "Iterator p v = \<lparr>ptr_m = p, vec_m = v\<rparr>"

definition Const_iterator :: "ptr \<Rightarrow> vid option \<Rightarrow> const_iterator" where
  "Const_iterator p v = \<lparr>const_ptr_m = p, const_vec_m = v\<rparr>"

text \<open>
  The difference of two pointers is defined for two positions of one block (and for two
  null pointers); it has type \<^verbatim>\<open>ptrdiff_t\<close>.
\<close>

definition ptr_diff :: "ptr \<Rightarrow> ptr \<Rightarrow> int option" where
  "ptr_diff p q = (if fst p = fst q then Some (snd p - snd q) else None)"

definition ptr_add :: "ptr \<Rightarrow> int \<Rightarrow> ptr" where
  "ptr_add p n = (fst p, snd p + n)"

text \<open>\<^verbatim>\<open>const_iterator(const iterator &other)\<close>\<close>

definition to_const_iterator :: "iterator \<Rightarrow> const_iterator" where
  "to_const_iterator other = Const_iterator (ptr_m other) (vec_m other)"

text \<open>\<^verbatim>\<open>operator+(const int &n)\<close> and \<^verbatim>\<open>operator-(const int &n)\<close>\<close>

definition iterator_plus :: "iterator \<Rightarrow> 32 word \<Rightarrow> iterator" where
  "iterator_plus it n = Iterator (ptr_add (ptr_m it) (sint n)) (vec_m it)"

definition iterator_minus :: "iterator \<Rightarrow> 32 word \<Rightarrow> iterator" where
  "iterator_minus it n = Iterator (ptr_add (ptr_m it) (- sint n)) (vec_m it)"

definition const_iterator_plus :: "const_iterator \<Rightarrow> 32 word \<Rightarrow> const_iterator" where
  "const_iterator_plus it n = Const_iterator (ptr_add (const_ptr_m it) (sint n)) (const_vec_m it)"

definition const_iterator_minus :: "const_iterator \<Rightarrow> 32 word \<Rightarrow> const_iterator" where
  "const_iterator_minus it n =
     Const_iterator (ptr_add (const_ptr_m it) (- sint n)) (const_vec_m it)"

text \<open>
  \<^verbatim>\<open>int operator-(const iterator &rhs) const\<close>: the pointer difference is converted to
  \<^verbatim>\<open>int\<close>, which keeps its low 32 bits. \<open>None\<close> is the undefined difference of pointers
  into two blocks.
\<close>

definition iterator_diff :: "iterator \<Rightarrow> iterator \<Rightarrow> (exception + 32 word) option" where
  "iterator_diff it rhs =
     (if vec_m it \<noteq> vec_m rhs then Some (Inl invalid_iterator)
      else
        do {
          d \<leftarrow> ptr_diff (ptr_m it) (ptr_m rhs);
          Some (Inr (word_of_int d))
        })"

definition const_iterator_diff ::
  "const_iterator \<Rightarrow> const_iterator \<Rightarrow> (exception + 32 word) option" where
  "const_iterator_diff it rhs =
     (if const_vec_m it \<noteq> const_vec_m rhs then Some (Inl invalid_iterator)
      else
        do {
          d \<leftarrow> ptr_diff (const_ptr_m it) (const_ptr_m rhs);
          Some (Inr (word_of_int d))
        })"

text \<open>\<^verbatim>\<open>operator*\<close>, then reading the element it refers to.\<close>

definition iterator_deref :: "iterator \<Rightarrow> 'a state \<Rightarrow> 'a option" where
  "iterator_deref it st = load_ptr (ptr_m it) st"

definition const_iterator_deref :: "const_iterator \<Rightarrow> 'a state \<Rightarrow> 'a option" where
  "const_iterator_deref it st = load_ptr (const_ptr_m it) st"

text \<open>\<^verbatim>\<open>operator==\<close> compares the positions only.\<close>

definition iterator_eq :: "iterator \<Rightarrow> iterator \<Rightarrow> bool" where
  "iterator_eq it rhs = (ptr_m it = ptr_m rhs)"

definition iterator_eq_const :: "iterator \<Rightarrow> const_iterator \<Rightarrow> bool" where
  "iterator_eq_const it rhs = (ptr_m it = const_ptr_m rhs)"

subsection \<open>Construction, assignment, destruction\<close>

definition empty_vector :: vector where
  "empty_vector = \<lparr>data_m = None, size_m = 0, capacity_m = 0\<rparr>"

definition set_obj :: "vid \<Rightarrow> vector \<Rightarrow> 'a state \<Rightarrow> 'a state" where
  "set_obj this v st = st\<lparr>objs := (objs st)(this \<mapsto> v)\<rparr>"

text \<open>\<^verbatim>\<open>vector()\<close>, constructing the object at address \<open>this\<close>.\<close>

definition vector_default :: "vid \<Rightarrow> 'a state \<Rightarrow> 'a state" where
  "vector_default this st = set_obj this empty_vector st"

text \<open>\<^verbatim>\<open>void reallocate(size_t new_capacity)\<close>\<close>

definition reallocate :: "vid \<Rightarrow> nat \<Rightarrow> 'a state \<Rightarrow> 'a state option" where
  "reallocate this new_capacity st =
     do {
       v \<leftarrow> objs st this;
       let (new_data, st1) = operator_new new_capacity st;
       st2 \<leftarrow> copy_loop (data_m v) (Some new_data) 0 0 (size_m v) st1;
       st3 \<leftarrow> destroy_loop (data_m v) 0 (size_m v) st2;
       st4 \<leftarrow> operator_delete (data_m v) st3;
       Some (set_obj this (v\<lparr>data_m := Some new_data, capacity_m := new_capacity\<rparr>) st4)
     }"

text \<open>\<^verbatim>\<open>vector(const vector &other)\<close>, constructing the object at address \<open>this\<close>.\<close>

definition vector_copy :: "vid \<Rightarrow> vid \<Rightarrow> 'a state \<Rightarrow> 'a state option" where
  "vector_copy this other st =
     do {
       let st0 = set_obj this empty_vector st;
       ov \<leftarrow> objs st0 other;
       if size_m ov > 0 then
         do {
           let (p, st1) = operator_new (size_m ov) st0;
           st2 \<leftarrow> copy_loop (data_m ov) (Some p) 0 0 (size_m ov) st1;
           Some (set_obj this \<lparr>data_m = Some p, size_m = size_m ov, capacity_m = size_m ov\<rparr> st2)
         }
       else Some st0
     }"

text \<open>\<^verbatim>\<open>~vector()\<close>; the object at \<open>this\<close> ceases to exist.\<close>

definition vector_destroy :: "vid \<Rightarrow> 'a state \<Rightarrow> 'a state option" where
  "vector_destroy this st =
     do {
       v \<leftarrow> objs st this;
       st1 \<leftarrow> destroy_loop (data_m v) 0 (size_m v) st;
       st2 \<leftarrow> operator_delete (data_m v) st1;
       Some (st2\<lparr>objs := (objs st2)(this := None)\<rparr>)
     }"

text \<open>\<^verbatim>\<open>vector &operator=(const vector &other)\<close>; the result is the address of \<^verbatim>\<open>*this\<close>.\<close>

definition operator_assign :: "vid \<Rightarrow> vid \<Rightarrow> 'a state \<Rightarrow> (vid, 'a) call" where
  "operator_assign this other st =
     (if this = other then Some (Inr this, st)
      else
        do {
          v \<leftarrow> objs st this;
          st1 \<leftarrow> destroy_loop (data_m v) 0 (size_m v) st;
          st2 \<leftarrow> operator_delete (data_m v) st1;
          let st3 = set_obj this empty_vector st2;
          ov \<leftarrow> objs st3 other;
          if size_m ov > 0 then
            do {
              let (p, st4) = operator_new (size_m ov) st3;
              st5 \<leftarrow> copy_loop (data_m ov) (Some p) 0 0 (size_m ov) st4;
              Some (Inr this,
                set_obj this \<lparr>data_m = Some p, size_m = size_m ov, capacity_m = size_m ov\<rparr> st5)
            }
          else Some (Inr this, st3)
        })"

subsection \<open>Element access and queries\<close>

text \<open>
  \<^verbatim>\<open>T &at(const size_t &pos)\<close>, its \<^verbatim>\<open>const\<close> overload and the two overloads of
  \<^verbatim>\<open>operator[]\<close>. The reference returned is the pointer to slot \<open>pos\<close> of the buffer.
\<close>

definition at :: "vid \<Rightarrow> nat \<Rightarrow> 'a state \<Rightarrow> (ptr, 'a) call" where
  "at this pos st =
     do {
       v \<leftarrow> objs st this;
       if pos \<ge> size_m v then Some (Inl index_out_of_bound, st)
       else Some (Inr (data_m v, int pos), st)
     }"

definition at_const :: "vid \<Rightarrow> nat \<Rightarrow> 'a state \<Rightarrow> (ptr, 'a) call" where
  "at_const this pos st =
     do {
       v \<leftarrow> objs st this;
       if pos \<ge> size_m v then Some (Inl index_out_of_bound, st)
       else Some (Inr (data_m v, int pos), st)
     }"

definition subscript :: "vid \<Rightarrow> nat \<Rightarrow> 'a state \<Rightarrow> (ptr, 'a) call" where
  "subscript this pos st =
     do {
       v \<leftarrow> objs st this;
       if pos \<ge> size_m v then Some (Inl index_out_of_bound, st)
       else Some (Inr (data_m v, int pos), st)
     }"

definition subscript_const :: "vid \<Rightarrow> nat \<Rightarrow> 'a state \<Rightarrow> (ptr, 'a) call" where
  "subscript_const this pos st =
     do {
       v \<leftarrow> objs st this;
       if pos \<ge> size_m v then Some (Inl index_out_of_bound, st)
       else Some (Inr (data_m v, int pos), st)
     }"

text \<open>\<^verbatim>\<open>const T &front() const\<close> and \<^verbatim>\<open>const T &back() const\<close>\<close>

definition front :: "vid \<Rightarrow> 'a state \<Rightarrow> (ptr, 'a) call" where
  "front this st =
     do {
       v \<leftarrow> objs st this;
       if size_m v = 0 then Some (Inl container_is_empty, st)
       else Some (Inr (data_m v, 0), st)
     }"

definition back_vec :: "vid \<Rightarrow> 'a state \<Rightarrow> (ptr, 'a) call" where
  "back_vec this st =
     do {
       v \<leftarrow> objs st this;
       if size_m v = 0 then Some (Inl container_is_empty, st)
       else Some (Inr (data_m v, int (size_m v - 1)), st)
     }"

text \<open>\<^verbatim>\<open>begin\<close>, \<^verbatim>\<open>end\<close>, \<^verbatim>\<open>cbegin\<close>, \<^verbatim>\<open>cend\<close> and the \<^verbatim>\<open>const\<close> overloads.\<close>

definition begin_it :: "vid \<Rightarrow> 'a state \<Rightarrow> iterator option" where
  "begin_it this st = do { v \<leftarrow> objs st this; Some (Iterator (data_m v, 0) (Some this)) }"

definition end_it :: "vid \<Rightarrow> 'a state \<Rightarrow> iterator option" where
  "end_it this st =
     do { v \<leftarrow> objs st this; Some (Iterator (data_m v, int (size_m v)) (Some this)) }"

definition begin_const :: "vid \<Rightarrow> 'a state \<Rightarrow> const_iterator option" where
  "begin_const this st =
     do { v \<leftarrow> objs st this; Some (Const_iterator (data_m v, 0) (Some this)) }"

definition end_const :: "vid \<Rightarrow> 'a state \<Rightarrow> const_iterator option" where
  "end_const this st =
     do { v \<leftarrow> objs st this; Some (Const_iterator (data_m v, int (size_m v)) (Some this)) }"

definition cbegin :: "vid \<Rightarrow> 'a state \<Rightarrow> const_iterator option" where
  "cbegin this st =
     do { v \<leftarrow> objs st this; Some (Const_iterator (data_m v, 0) (Some this)) }"

definition cend :: "vid \<Rightarrow> 'a state \<Rightarrow> const_iterator option" where
  "cend this st =
     do { v \<leftarrow> objs st this; Some (Const_iterator (data_m v, int (size_m v)) (Some this)) }"

text \<open>\<^verbatim>\<open>empty\<close> and \<^verbatim>\<open>size\<close>\<close>

definition empty_vec :: "vid \<Rightarrow> 'a state \<Rightarrow> bool option" where
  "empty_vec this st = do { v \<leftarrow> objs st this; Some (size_m v = 0) }"

definition size_vec :: "vid \<Rightarrow> 'a state \<Rightarrow> nat option" where
  "size_vec this st = do { v \<leftarrow> objs st this; Some (size_m v) }"

subsection \<open>Mutators\<close>

text \<open>\<^verbatim>\<open>void clear()\<close>\<close>

definition clear :: "vid \<Rightarrow> 'a state \<Rightarrow> 'a state option" where
  "clear this st =
     do {
       v \<leftarrow> objs st this;
       st1 \<leftarrow> destroy_loop (data_m v) 0 (size_m v) st;
       Some (set_obj this (v\<lparr>size_m := 0\<rparr>) st1)
     }"

text \<open>\<^verbatim>\<open>iterator insert(const size_t &ind, const T &value)\<close>\<close>

definition insert_at ::
  "vid \<Rightarrow> 'a iref \<Rightarrow> 'a cref \<Rightarrow> 'a state \<Rightarrow> (iterator, 'a) call" where
  "insert_at this ind val st =
     do {
       v \<leftarrow> objs st this;
       n \<leftarrow> read_index ind st;
       if n > size_m v then Some (Inl index_out_of_bound, st)
       else if size_m v \<ge> capacity_m v then
         do {
           let new_capacity = (if capacity_m v = 0 then 1 else capacity_m v * 2);
           let (new_data, st1) = operator_new new_capacity st;
           st2 \<leftarrow> copy_until (data_m v) (Some new_data) ind 0 st1;
           n2 \<leftarrow> read_index ind st2;
           x \<leftarrow> read_ref val st2;
           st3 \<leftarrow> construct (Some new_data) n2 x st2;
           n3 \<leftarrow> read_index ind st3;
           st4 \<leftarrow> copy_loop (data_m v) (Some new_data) 1 n3 (size_m v) st3;
           st5 \<leftarrow> destroy_loop (data_m v) 0 (size_m v) st4;
           st6 \<leftarrow> operator_delete (data_m v) st5;
           let st7 = set_obj this
             \<lparr>data_m = Some new_data, size_m = size_m v + 1, capacity_m = new_capacity\<rparr> st6;
           r \<leftarrow> read_index ind st7;
           Some (Inr (Iterator (Some new_data, int r) (Some this)), st7)
         }
       else
         do {
           x \<leftarrow> read_ref val st;
           st1 \<leftarrow> construct (data_m v) (size_m v) x st;
           st2 \<leftarrow> shift_right (data_m v) (size_m v) ind st1;
           n2 \<leftarrow> read_index ind st2;
           y \<leftarrow> read_ref val st2;
           st3 \<leftarrow> assign (data_m v) n2 y st2;
           let st4 = set_obj this (v\<lparr>size_m := size_m v + 1\<rparr>) st3;
           r \<leftarrow> read_index ind st4;
           Some (Inr (Iterator (data_m v, int r) (Some this)), st4)
         }
     }"

text \<open>\<^verbatim>\<open>iterator erase(const size_t &ind)\<close>\<close>

definition erase :: "vid \<Rightarrow> 'a iref \<Rightarrow> 'a state \<Rightarrow> (iterator, 'a) call" where
  "erase this ind st =
     do {
       v \<leftarrow> objs st this;
       n \<leftarrow> read_index ind st;
       if n \<ge> size_m v then Some (Inl index_out_of_bound, st)
       else
         do {
           i \<leftarrow> read_index ind st;
           st1 \<leftarrow> shift_left (data_m v) i (size_m v - 1) st;
           st2 \<leftarrow> destroy (data_m v) (size_m v - 1) st1;
           let st3 = set_obj this (v\<lparr>size_m := size_m v - 1\<rparr>) st2;
           r \<leftarrow> read_index ind st3;
           Some (Inr (Iterator (data_m v, int r) (Some this)), st3)
         }
     }"

text \<open>\<^verbatim>\<open>void push_back(const T &value)\<close>\<close>

definition push_back :: "vid \<Rightarrow> 'a cref \<Rightarrow> 'a state \<Rightarrow> 'a state option" where
  "push_back this val st =
     do {
       v \<leftarrow> objs st this;
       st1 \<leftarrow>
         (if size_m v \<ge> capacity_m v
          then reallocate this (if capacity_m v = 0 then 1 else capacity_m v * 2) st
          else Some st);
       v1 \<leftarrow> objs st1 this;
       x \<leftarrow> read_ref val st1;
       st2 \<leftarrow> construct (data_m v1) (size_m v1) x st1;
       Some (set_obj this (v1\<lparr>size_m := size_m v1 + 1\<rparr>) st2)
     }"

text \<open>\<^verbatim>\<open>void pop_back()\<close>\<close>

definition pop_back :: "vid \<Rightarrow> 'a state \<Rightarrow> (unit, 'a) call" where
  "pop_back this st =
     do {
       v \<leftarrow> objs st this;
       if size_m v = 0 then Some (Inl container_is_empty, st)
       else
         do {
           st1 \<leftarrow> destroy (data_m v) (size_m v - 1) st;
           Some (Inr (), set_obj this (v\<lparr>size_m := size_m v - 1\<rparr>) st1)
         }
     }"

section \<open>Specification\<close>

subsection \<open>The abstract state of a container\<close>

text \<open>
  \<open>repr xs c\<close> is the buffer of capacity \<open>c\<close> that holds the sequence \<open>xs\<close>: the
  elements in slots \<open>[0, size)\<close>, no object in slots \<open>[size, capacity)\<close>.
\<close>

definition repr :: "'a list \<Rightarrow> nat \<Rightarrow> 'a block" where
  "repr xs c = map Some xs @ replicate (c - length xs) None"

text \<open>
  \<open>holds st this xs\<close>: the object at \<open>this\<close> is a container in a consistent state whose
  element sequence is \<open>xs\<close>. Its size is the length of \<open>xs\<close>, which the capacity bounds; it
  has either no buffer and capacity 0, or a live block of \<open>capacity_m\<close> slots that
  represents \<open>xs\<close>.
\<close>

definition holds :: "'a state \<Rightarrow> vid \<Rightarrow> 'a list \<Rightarrow> bool" where
  "holds st this xs =
     (case objs st this of
        None \<Rightarrow> False
      | Some v \<Rightarrow>
          size_m v = length xs \<and> length xs \<le> capacity_m v \<and>
          (case data_m v of
             None \<Rightarrow> capacity_m v = 0
           | Some a \<Rightarrow> block_at st a = Some (repr xs (capacity_m v))))"

text \<open>The buffer pointer and the capacity of the container at \<open>this\<close>.\<close>

definition buffer :: "'a state \<Rightarrow> vid \<Rightarrow> addr option" where
  "buffer st this = (case objs st this of None \<Rightarrow> None | Some v \<Rightarrow> data_m v)"

definition capacity :: "'a state \<Rightarrow> vid \<Rightarrow> nat option" where
  "capacity st this = map_option capacity_m (objs st this)"

text \<open>
  The element sequence as a client observes it: the objects read from slots
  \<open>0, \<dots>, size - 1\<close> of the buffer.
\<close>

definition elements :: "'a state \<Rightarrow> vid \<Rightarrow> 'a list option" where
  "elements st this =
     do {
       v \<leftarrow> objs st this;
       those (map (\<lambda>i. load (data_m v) i st) [0..<size_m v])
     }"

text \<open>
  An argument, and an index, that do not refer into the buffer of the container at
  \<open>this\<close>.
\<close>

definition alias_free :: "'a cref \<Rightarrow> 'a state \<Rightarrow> vid \<Rightarrow> bool" where
  "alias_free r st this =
     (case r of Outside x \<Rightarrow> True | Inside p \<Rightarrow> fst p \<noteq> buffer st this)"

definition index_free :: "'a iref \<Rightarrow> 'a state \<Rightarrow> vid \<Rightarrow> bool" where
  "index_free r st this =
     (case r of Index n \<Rightarrow> True | Element p f \<Rightarrow> fst p \<noteq> buffer st this)"

text \<open>Two distinct containers that do not share a buffer.\<close>

definition separate :: "'a state \<Rightarrow> vid \<Rightarrow> vid \<Rightarrow> bool" where
  "separate st this other \<longleftrightarrow>
     this \<noteq> other \<and> (buffer st this = None \<or> buffer st this \<noteq> buffer st other)"

text \<open>
  \<open>frame st this st'\<close> bounds what a call on the container at \<open>this\<close> changes from \<open>st\<close>
  to \<open>st'\<close>: no other object, no block but its own buffer; the buffer it has afterwards is
  the old one or a block allocated by the call.
\<close>

definition frame :: "'a state \<Rightarrow> vid \<Rightarrow> 'a state \<Rightarrow> bool" where
  "frame st this st' \<longleftrightarrow>
     (\<forall>other. other \<noteq> this \<longrightarrow> objs st' other = objs st other) \<and>
     (\<forall>a. a < length (mem st) \<longrightarrow> buffer st this \<noteq> Some a \<longrightarrow> block_at st' a = block_at st a) \<and>
     (buffer st' this = buffer st this \<or> (\<exists>a. buffer st' this = Some a \<and> length (mem st) \<le> a)) \<and>
     length (mem st) \<le> length (mem st')"

subsection \<open>The effect of the memory operations and of the loops\<close>

definition set_block :: "addr \<Rightarrow> 'a block \<Rightarrow> 'a state \<Rightarrow> 'a state" where
  "set_block a b st = st\<lparr>mem := (mem st)[a := Some b]\<rparr>"

definition free_block :: "addr \<Rightarrow> 'a state \<Rightarrow> 'a state" where
  "free_block a st = st\<lparr>mem := (mem st)[a := None]\<rparr>"

definition new_block :: "nat \<Rightarrow> 'a state \<Rightarrow> 'a state" where
  "new_block n st = st\<lparr>mem := mem st @ [Some (replicate n None)]\<rparr>"

text \<open>The block \<open>db\<close> after \<open>copy_loop\<close> has copied slots \<open>[i, n)\<close> of \<open>sb\<close> to \<open>[i + k, n + k)\<close>.\<close>

definition blit :: "'a block \<Rightarrow> nat \<Rightarrow> nat \<Rightarrow> nat \<Rightarrow> 'a block \<Rightarrow> 'a block" where
  "blit sb k i n db =
     map (\<lambda>j. if i + k \<le> j \<and> j < n + k then sb ! (j - k) else db ! j) [0..<length db]"

text \<open>The block \<open>b\<close> after \<open>destroy_loop\<close> has destroyed slots \<open>[i, n)\<close>.\<close>

definition wipe :: "'a block \<Rightarrow> nat \<Rightarrow> nat \<Rightarrow> 'a block" where
  "wipe b i n = map (\<lambda>j. if i \<le> j \<and> j < n then None else b ! j) [0..<length b]"

text \<open>The block \<open>b\<close> after \<open>shift_right\<close> from \<open>i\<close> down to \<open>ind\<close>, and after \<open>shift_left\<close>.\<close>

definition shr :: "'a block \<Rightarrow> nat \<Rightarrow> nat \<Rightarrow> 'a block" where
  "shr b ind i = map (\<lambda>j. if ind < j \<and> j \<le> i then b ! (j - 1) else b ! j) [0..<length b]"

definition shl :: "'a block \<Rightarrow> nat \<Rightarrow> nat \<Rightarrow> 'a block" where
  "shl b i n = map (\<lambda>j. if i \<le> j \<and> j < n then b ! (j + 1) else b ! j) [0..<length b]"

subsection \<open>Sequences of calls\<close>

text \<open>\<open>push_back_all this rs\<close> calls \<^verbatim>\<open>push_back\<close> with each argument of \<open>rs\<close> in turn.\<close>

fun push_back_all :: "vid \<Rightarrow> 'a cref list \<Rightarrow> 'a state \<Rightarrow> 'a state option" where
  "push_back_all this [] st = Some st"
| "push_back_all this (r # rs) st =
     do { st' \<leftarrow> push_back this r st; push_back_all this rs st' }"

text \<open>
  The calls by which a client changes a container: the five mutators, with arguments
  outside the containers, and the assignment \<^verbatim>\<open>v.at(i) = x\<close> through the reference that
  \<^verbatim>\<open>at\<close> returns. \<open>mutate\<close> gives the state after the call, whether it returned or
  threw.
\<close>

datatype 'a mutation =
  Push_back 'a | Pop_back | Insert_at nat 'a | Erase nat | Clear | Write nat 'a

fun mutate :: "vid \<Rightarrow> 'a mutation \<Rightarrow> 'a state \<Rightarrow> 'a state option" where
  "mutate this (Push_back x) st = push_back this (Outside x) st"
| "mutate this Pop_back st = map_option snd (pop_back this st)"
| "mutate this (Insert_at i x) st =
     map_option snd (insert_at this (Index i) (Outside x) st)"
| "mutate this (Erase i) st = map_option snd (erase this (Index i) st)"
| "mutate this Clear st = clear this st"
| "mutate this (Write i x) st =
     do {
       (r, st1) \<leftarrow> at this i st;
       case r of Inl e \<Rightarrow> Some st1 | Inr p \<Rightarrow> assign_ptr p x st1
     }"

fun mutates :: "vid \<Rightarrow> 'a mutation list \<Rightarrow> 'a state \<Rightarrow> 'a state option" where
  "mutates this [] st = Some st"
| "mutates this (m # ms) st = do { st' \<leftarrow> mutate this m st; mutates this ms st' }"

text \<open>
  \<open>deep_copy st this other xs\<close>: in \<open>st\<close> the container at \<open>this\<close> is a copy of the one
  at \<open>other\<close>, both with the elements \<open>xs\<close>; its capacity is the number of elements; and
  whatever calls change one of the two from then on, the elements of the other stay \<open>xs\<close>.
\<close>

definition deep_copy :: "'a state \<Rightarrow> vid \<Rightarrow> vid \<Rightarrow> 'a list \<Rightarrow> bool" where
  "deep_copy st this other xs \<longleftrightarrow>
     elements st this = Some xs \<and> elements st other = Some xs \<and>
     capacity st this = Some (length xs) \<and>
     (\<forall>ms. \<exists>st'. mutates this ms st = Some st' \<and> elements st' other = Some xs) \<and>
     (\<forall>ms. \<exists>st'. mutates other ms st = Some st' \<and> elements st' this = Some xs)"

subsection \<open>Example states\<close>

text \<open>No object and no block.\<close>

definition st_empty :: "nat state" where
  "st_empty = \<lparr>mem = [], objs = Map.empty\<rparr>"

text \<open>
  The state after \<^verbatim>\<open>vector<T> v; v.push_back(10); v.push_back(20); v.push_back(30);\<close>
  with \<open>v\<close> at address 0: the elements 10, 20, 30 in the third block allocated, of
  capacity 4; the blocks of capacity 1 and 2 are released.
\<close>

definition st_abc :: "nat state" where
  "st_abc = \<lparr>mem = [None, None, Some [Some 10, Some 20, Some 30, None]],
              objs = Map.empty(0 \<mapsto> \<lparr>data_m = Some 2, size_m = 3, capacity_m = 4\<rparr>)\<rparr>"

text \<open>
  The state after \<^verbatim>\<open>vector<T> v, w; v.push_back(1); v.push_back(2); w.push_back(7);\<close>
  with \<open>v\<close> at address 0 and \<open>w\<close> at address 1: both containers are full.
\<close>

definition st_two :: "nat state" where
  "st_two = \<lparr>mem = [None, Some [Some 1, Some 2], Some [Some 7]],
              objs = Map.empty(0 \<mapsto> \<lparr>data_m = Some 1, size_m = 2, capacity_m = 2\<rparr>,
                               1 \<mapsto> \<lparr>data_m = Some 2, size_m = 1, capacity_m = 1\<rparr>)\<rparr>"

text \<open>
  The states after three calls of \<^verbatim>\<open>push_back\<close> on a \<^verbatim>\<open>vector<size_t>\<close> at address
  0, with the values 0, 2, 7 and with the values 7, 0, 1.
\<close>

definition st_027 :: "nat state" where
  "st_027 = \<lparr>mem = [None, None, Some [Some 0, Some 2, Some 7, None]],
              objs = Map.empty(0 \<mapsto> \<lparr>data_m = Some 2, size_m = 3, capacity_m = 4\<rparr>)\<rparr>"

definition st_701 :: "nat state" where
  "st_701 = \<lparr>mem = [None, None, Some [Some 7, Some 0, Some 1, None]],
              objs = Map.empty(0 \<mapsto> \<lparr>data_m = Some 2, size_m = 3, capacity_m = 4\<rparr>)\<rparr>"

text \<open>The number of elements from which \<^verbatim>\<open>int\<close> cannot count them: \<open>2 ^ 31\<close>.\<close>

definition int_limit :: nat where
  "int_limit = 2 ^ 31"

section \<open>Lemmas\<close>

subsection \<open>Memory operations\<close>

lemma block_at_set_block [simp]:
  "block_at (set_block a b st) a' = (if a' = a \<and> a < length (mem st) then Some b else block_at st a')"
  by (simp add: block_at_def set_block_def)

lemma objs_set_block [simp]: "objs (set_block a b st) = objs st"
  by (simp add: set_block_def)

lemma length_mem_set_block [simp]: "length (mem (set_block a b st)) = length (mem st)"
  by (simp add: set_block_def)

lemma set_block_twice [simp]: "set_block a b (set_block a b' st) = set_block a b st"
  by (simp add: set_block_def)

lemma set_block_same:
  assumes "block_at st a = Some b"
  shows "set_block a b st = st"
proof -
  from assms have "mem st ! a = Some b"
    by (simp add: block_at_def split: if_splits)
  then have "(mem st)[a := Some b] = mem st"
    by (metis list_update_id)
  then show ?thesis
    by (simp add: set_block_def)
qed

lemma block_at_SomeD: "block_at st a = Some b \<Longrightarrow> a < length (mem st)"
  by (auto simp: block_at_def split: if_splits)

lemma load_Some: "block_at st a = Some b \<Longrightarrow> i < length b \<Longrightarrow> load (Some a) i st = b ! i"
  by (simp add: load_def)

lemma construct_Some:
  "block_at st a = Some b \<Longrightarrow> i < length b \<Longrightarrow>
   construct (Some a) i x st = Some (set_block a (b[i := Some x]) st)"
  by (simp add: construct_def set_block_def)

lemma assign_Some:
  "block_at st a = Some b \<Longrightarrow> i < length b \<Longrightarrow> b ! i \<noteq> None \<Longrightarrow>
   assign (Some a) i x st = Some (set_block a (b[i := Some x]) st)"
  by (simp add: assign_def set_block_def)

lemma destroy_Some:
  "block_at st a = Some b \<Longrightarrow> i < length b \<Longrightarrow> b ! i \<noteq> None \<Longrightarrow>
   destroy (Some a) i st = Some (set_block a (b[i := None]) st)"
  by (simp add: destroy_def set_block_def)

subsection \<open>The loops\<close>

text \<open>
  Each loop runs to its end when the slots it reads and assigns hold objects, and its
  effect on the block is the closed form of the specification.
\<close>

lemma length_blit [simp]: "length (blit sb k i n db) = length db"
  by (simp add: blit_def)

lemma blit_nth: "j < length db \<Longrightarrow> blit sb k i n db ! j = (if i + k \<le> j \<and> j < n + k then sb ! (j - k) else db ! j)"
  by (simp add: blit_def)

lemma blit_empty: "n \<le> i \<Longrightarrow> blit sb k i n db = db"
  by (rule nth_equalityI) (auto simp: blit_nth)

lemma blit_step:
  "i < n \<Longrightarrow> n + k \<le> length db \<Longrightarrow> blit sb k (Suc i) n (db[i + k := sb ! i]) = blit sb k i n db"
  by (rule nth_equalityI) (auto simp: blit_nth nth_list_update)

lemma copy_loop_done: "n \<le> i \<Longrightarrow> copy_loop src dst k i n st = Some st"
  by (simp add: copy_loop.simps)

lemma copy_loop_blit:
  assumes "block_at st s = Some sb" "s \<noteq> d" "n \<le> length sb"
    "\<forall>j. i \<le> j \<and> j < n \<longrightarrow> sb ! j \<noteq> None"
    "block_at st d = Some db" "n + k \<le> length db"
  shows "copy_loop (Some s) (Some d) k i n st = Some (set_block d (blit sb k i n db) st)"
  using assms
proof (induction "n - i" arbitrary: i st db)
  case 0
  then show ?case by (simp add: copy_loop_done blit_empty set_block_same)
next
  case (Suc m)
  then have lt: "i < n" by simp
  from Suc.prems(4) lt obtain x where x: "sb ! i = Some x" by auto
  let ?st = "set_block d (db[i + k := Some x]) st"
  have ld: "load (Some s) i st = Some x"
    using Suc.prems(1,3) lt x by (simp add: load_Some)
  have cs: "construct (Some d) (i + k) x st = Some ?st"
    using Suc.prems(5,6) lt by (simp add: construct_Some)
  have dlen: "d < length (mem st)" using Suc.prems(5) by (rule block_at_SomeD)
  have m: "m = n - Suc i" using Suc.hyps(2) by simp
  have b1: "block_at ?st s = Some sb" using Suc.prems(1,2) by simp
  have b2: "block_at ?st d = Some (db[i + k := Some x])" using dlen by simp
  have b3: "\<forall>j. Suc i \<le> j \<and> j < n \<longrightarrow> sb ! j \<noteq> None" using Suc.prems(4) by simp
  have b4: "n + k \<le> length (db[i + k := Some x])" using Suc.prems(6) by simp
  have "copy_loop (Some s) (Some d) k (Suc i) n ?st =
        Some (set_block d (blit sb k (Suc i) n (db[i + k := Some x])) ?st)"
    by (rule Suc.hyps(1)[OF m b1 Suc.prems(2,3) b3 b2 b4])
  also have "\<dots> = Some (set_block d (blit sb k i n db) st)"
    using blit_step[of i n k db sb] lt Suc.prems(6) x by simp
  finally show ?case
    using ld cs lt by (subst copy_loop.simps) simp
qed

lemma length_wipe [simp]: "length (wipe b i n) = length b"
  by (simp add: wipe_def)

lemma wipe_nth: "j < length b \<Longrightarrow> wipe b i n ! j = (if i \<le> j \<and> j < n then None else b ! j)"
  by (simp add: wipe_def)

lemma wipe_empty: "n \<le> i \<Longrightarrow> wipe b i n = b"
  by (rule nth_equalityI) (auto simp: wipe_nth)

lemma wipe_step: "i < n \<Longrightarrow> n \<le> length b \<Longrightarrow> wipe (b[i := None]) (Suc i) n = wipe b i n"
  by (rule nth_equalityI) (auto simp: wipe_nth nth_list_update)

lemma destroy_loop_done: "n \<le> i \<Longrightarrow> destroy_loop p i n st = Some st"
  by (simp add: destroy_loop.simps)

lemma destroy_loop_wipe:
  assumes "block_at st a = Some b" "n \<le> length b" "\<forall>j. i \<le> j \<and> j < n \<longrightarrow> b ! j \<noteq> None"
  shows "destroy_loop (Some a) i n st = Some (set_block a (wipe b i n) st)"
  using assms
proof (induction "n - i" arbitrary: i st b)
  case 0
  then show ?case by (simp add: destroy_loop_done wipe_empty set_block_same)
next
  case (Suc m)
  then have lt: "i < n" by simp
  let ?st = "set_block a (b[i := None]) st"
  have ds: "destroy (Some a) i st = Some ?st"
    using Suc.prems lt by (simp add: destroy_Some)
  have alen: "a < length (mem st)" using Suc.prems(1) by (rule block_at_SomeD)
  have m: "m = n - Suc i" using Suc.hyps(2) by simp
  have b1: "block_at ?st a = Some (b[i := None])" using alen by simp
  have b2: "n \<le> length (b[i := None])" using Suc.prems(2) by simp
  have b3: "\<forall>j. Suc i \<le> j \<and> j < n \<longrightarrow> b[i := None] ! j \<noteq> None"
    using Suc.prems(3) by (simp add: nth_list_update)
  have "destroy_loop (Some a) (Suc i) n ?st = Some (set_block a (wipe (b[i := None]) (Suc i) n) ?st)"
    by (rule Suc.hyps(1)[OF m b1 b2 b3])
  also have "\<dots> = Some (set_block a (wipe b i n) st)"
    using wipe_step[of i n b] lt Suc.prems(2) by simp
  finally show ?case
    using ds lt by (subst destroy_loop.simps) simp
qed

lemma length_shr [simp]: "length (shr b ind i) = length b"
  by (simp add: shr_def)

lemma shr_nth: "j < length b \<Longrightarrow> shr b ind i ! j = (if ind < j \<and> j \<le> i then b ! (j - 1) else b ! j)"
  by (simp add: shr_def)

lemma shr_empty: "i \<le> ind \<Longrightarrow> shr b ind i = b"
  by (rule nth_equalityI) (auto simp: shr_nth)

lemma shr_step:
  "ind < i \<Longrightarrow> i < length b \<Longrightarrow> shr (b[i := b ! (i - 1)]) ind (i - 1) = shr b ind i"
  by (rule nth_equalityI) (auto simp: shr_nth nth_list_update)

lemma read_index_Index [simp]: "read_index (Index n) st = Some n"
  by (simp add: read_index_def)

lemma shift_right_done:
  "read_index ind st = Some n \<Longrightarrow> i \<le> n \<Longrightarrow> shift_right p i ind st = Some st"
  by (simp add: shift_right.simps)

lemma shift_right_shr:
  assumes "block_at st a = Some b" "i < length b"
    "\<forall>j. n \<le> j \<and> j \<le> i \<longrightarrow> b ! j \<noteq> None"
    "\<forall>b'. read_index ind (set_block a b' st) = Some n"
  shows "shift_right (Some a) i ind st = Some (set_block a (shr b n i) st)"
  using assms
proof (induction "i - n" arbitrary: i st b)
  case 0
  from 0(5)[rule_format, of b] 0(2) have "read_index ind st = Some n"
    by (simp add: set_block_same)
  with 0 show ?case by (simp add: shift_right_done shr_empty set_block_same)
next
  case (Suc m)
  then have lt: "n < i" by simp
  from Suc.prems(4)[rule_format, of b] Suc.prems(1) have rd: "read_index ind st = Some n"
    by (simp add: set_block_same)
  have "n \<le> i - 1 \<and> i - 1 \<le> i" using lt by arith
  with Suc.prems(3) have "b ! (i - 1) \<noteq> None" by blast
  then obtain x where x: "b ! (i - 1) = Some x" by auto
  let ?st = "set_block a (b[i := Some x]) st"
  have ld: "load (Some a) (i - 1) st = Some x"
    using Suc.prems(1,2) lt x by (simp add: load_Some)
  have as: "assign (Some a) i x st = Some ?st"
    using Suc.prems lt by (simp add: assign_Some)
  have alen: "a < length (mem st)" using Suc.prems(1) by (rule block_at_SomeD)
  have m: "m = (i - 1) - n" using Suc.hyps(2) by simp
  have b1: "block_at ?st a = Some (b[i := Some x])" using alen by simp
  have b2: "i - 1 < length (b[i := Some x])" using Suc.prems(2) by simp
  have b3: "\<forall>j. n \<le> j \<and> j \<le> i - 1 \<longrightarrow> b[i := Some x] ! j \<noteq> None"
  proof (intro allI impI)
    fix j assume "n \<le> j \<and> j \<le> i - 1"
    then have "n \<le> j \<and> j \<le> i" and "j \<noteq> i" using lt by arith+
    with Suc.prems(3) show "b[i := Some x] ! j \<noteq> None" by simp
  qed
  have b4: "\<forall>b'. read_index ind (set_block a b' ?st) = Some n"
    using Suc.prems(4) by simp
  have "shift_right (Some a) (i - 1) ind ?st =
      Some (set_block a (shr (b[i := Some x]) n (i - 1)) ?st)"
    by (rule Suc.hyps(1)[OF m b1 b2 b3 b4])
  also have "\<dots> = Some (set_block a (shr b n i) st)"
    using shr_step[of n i b] lt Suc.prems(2) x by simp
  finally show ?case
    using rd ld as lt by (subst shift_right.simps) simp
qed

lemma copy_until_done:
  "read_index ind st = Some n \<Longrightarrow> n \<le> i \<Longrightarrow> copy_until src dst ind i st = Some st"
  by (simp add: copy_until.simps)

lemma copy_until_blit:
  assumes "block_at st s = Some sb" "s \<noteq> d" "n \<le> length sb"
    "\<forall>j. i \<le> j \<and> j < n \<longrightarrow> sb ! j \<noteq> None"
    "block_at st d = Some db" "n \<le> length db"
    "\<forall>b'. read_index ind (set_block d b' st) = Some n"
  shows "copy_until (Some s) (Some d) ind i st = Some (set_block d (blit sb 0 i n db) st)"
  using assms
proof (induction "n - i" arbitrary: i st db)
  case 0
  from 0(8)[rule_format, of db] 0(6) have "read_index ind st = Some n"
    by (simp add: set_block_same)
  with 0 show ?case by (simp add: copy_until_done blit_empty set_block_same)
next
  case (Suc m)
  then have lt: "i < n" by simp
  from Suc.prems(7)[rule_format, of db] Suc.prems(5) have rd: "read_index ind st = Some n"
    by (simp add: set_block_same)
  from Suc.prems(4) lt obtain x where x: "sb ! i = Some x" by auto
  let ?st = "set_block d (db[i := Some x]) st"
  have ld: "load (Some s) i st = Some x"
    using Suc.prems(1,3) lt x by (simp add: load_Some)
  have cs: "construct (Some d) i x st = Some ?st"
    using Suc.prems(5,6) lt by (simp add: construct_Some)
  have dlen: "d < length (mem st)" using Suc.prems(5) by (rule block_at_SomeD)
  have m: "m = n - Suc i" using Suc.hyps(2) by simp
  have b1: "block_at ?st s = Some sb" using Suc.prems(1,2) by simp
  have b2: "block_at ?st d = Some (db[i := Some x])" using dlen by simp
  have b3: "\<forall>j. Suc i \<le> j \<and> j < n \<longrightarrow> sb ! j \<noteq> None" using Suc.prems(4) by simp
  have b4: "n \<le> length (db[i := Some x])" using Suc.prems(6) by simp
  have b5: "\<forall>b'. read_index ind (set_block d b' ?st) = Some n"
    using Suc.prems(7) by simp
  have "copy_until (Some s) (Some d) ind (Suc i) ?st =
        Some (set_block d (blit sb 0 (Suc i) n (db[i := Some x])) ?st)"
    by (rule Suc.hyps(1)[OF m b1 Suc.prems(2,3) b3 b2 b4 b5])
  also have "\<dots> = Some (set_block d (blit sb 0 i n db) st)"
    using blit_step[of i n 0 db sb] lt Suc.prems(6) x by simp
  finally show ?case
    using rd ld cs lt by (subst copy_until.simps) simp
qed

lemma length_shl [simp]: "length (shl b i n) = length b"
  by (simp add: shl_def)

lemma shl_nth: "j < length b \<Longrightarrow> shl b i n ! j = (if i \<le> j \<and> j < n then b ! (j + 1) else b ! j)"
  by (simp add: shl_def)

lemma shl_empty: "n \<le> i \<Longrightarrow> shl b i n = b"
  by (rule nth_equalityI) (auto simp: shl_nth)

lemma shl_step:
  "i < n \<Longrightarrow> n < length b \<Longrightarrow> shl (b[i := b ! (i + 1)]) (Suc i) n = shl b i n"
  by (rule nth_equalityI) (auto simp: shl_nth nth_list_update)

lemma shift_left_done: "n \<le> i \<Longrightarrow> shift_left p i n st = Some st"
  by (simp add: shift_left.simps)

lemma shift_left_shl:
  assumes "block_at st a = Some b" "n < length b" "\<forall>j. i \<le> j \<and> j \<le> n \<longrightarrow> b ! j \<noteq> None"
  shows "shift_left (Some a) i n st = Some (set_block a (shl b i n) st)"
  using assms
proof (induction "n - i" arbitrary: i st b)
  case 0
  then show ?case by (simp add: shift_left_done shl_empty set_block_same)
next
  case (Suc m)
  then have lt: "i < n" by simp
  have "i \<le> i + 1 \<and> i + 1 \<le> n" using lt by arith
  with Suc.prems(3) have "b ! (i + 1) \<noteq> None" by blast
  then obtain x where x: "b ! (i + 1) = Some x" by auto
  let ?st = "set_block a (b[i := Some x]) st"
  have ld: "load (Some a) (i + 1) st = Some x"
    using Suc.prems(1,2) lt x by (simp add: load_Some)
  have as: "assign (Some a) i x st = Some ?st"
    using Suc.prems lt by (simp add: assign_Some)
  have alen: "a < length (mem st)" using Suc.prems(1) by (rule block_at_SomeD)
  have m: "m = n - Suc i" using Suc.hyps(2) by simp
  have b1: "block_at ?st a = Some (b[i := Some x])" using alen by simp
  have b2: "n < length (b[i := Some x])" using Suc.prems(2) by simp
  have b3: "\<forall>j. Suc i \<le> j \<and> j \<le> n \<longrightarrow> b[i := Some x] ! j \<noteq> None"
    using Suc.prems(2,3) lt by (simp add: nth_list_update)
  have "shift_left (Some a) (Suc i) n ?st = Some (set_block a (shl (b[i := Some x]) (Suc i) n) ?st)"
    by (rule Suc.hyps(1)[OF m b1 b2 b3])
  also have "\<dots> = Some (set_block a (shl b i n) st)"
    using shl_step[of i n b] lt Suc.prems(2) x by simp
  finally show ?case
    using ld as lt by (subst shift_left.simps) simp
qed

subsection \<open>Allocation, release and object updates\<close>

lemma block_at_free_block [simp]:
  "block_at (free_block a st) a' = (if a' = a then None else block_at st a')"
  by (simp add: block_at_def free_block_def)

lemma objs_free_block [simp]: "objs (free_block a st) = objs st"
  by (simp add: free_block_def)

lemma length_mem_free_block [simp]: "length (mem (free_block a st)) = length (mem st)"
  by (simp add: free_block_def)

lemma operator_delete_Some:
  "block_at st a = Some b \<Longrightarrow> operator_delete (Some a) st = Some (free_block a st)"
  by (simp add: operator_delete_def free_block_def)

lemma operator_delete_None [simp]: "operator_delete None st = Some st"
  by (simp add: operator_delete_def)

lemma operator_new_eq: "operator_new n st = (length (mem st), new_block n st)"
  by (simp add: operator_new_def new_block_def)

lemma block_at_new_block [simp]:
  "block_at (new_block n st) a = (if a = length (mem st) then Some (replicate n None) else block_at st a)"
  by (simp add: block_at_def new_block_def nth_append)

lemma objs_new_block [simp]: "objs (new_block n st) = objs st"
  by (simp add: new_block_def)

lemma length_mem_new_block [simp]: "length (mem (new_block n st)) = Suc (length (mem st))"
  by (simp add: new_block_def)

lemma block_at_set_obj [simp]: "block_at (set_obj this v st) a = block_at st a"
  by (simp add: block_at_def set_obj_def)

lemma objs_set_obj [simp]: "objs (set_obj this v st) = (objs st)(this \<mapsto> v)"
  by (simp add: set_obj_def)

lemma mem_set_obj [simp]: "mem (set_obj this v st) = mem st"
  by (simp add: set_obj_def)

subsection \<open>The buffer of a container\<close>

lemma length_repr [simp]: "length xs \<le> c \<Longrightarrow> length (repr xs c) = c"
  by (simp add: repr_def)

lemma repr_nth:
  "j < c \<Longrightarrow> length xs \<le> c \<Longrightarrow> repr xs c ! j = (if j < length xs then Some (xs ! j) else None)"
  by (simp add: repr_def nth_append)

lemma insert_block_realloc:
  assumes "ind \<le> length xs" "length xs < c"
  shows "blit (map Some xs) 1 ind (length xs) ((blit (map Some xs) 0 0 ind (replicate c None))[ind := Some x])
         = repr (take ind xs @ x # drop ind xs) c"
  using assms
  by (intro nth_equalityI) (auto simp: blit_nth repr_nth nth_list_update nth_append nth_Cons' min_def)

lemma insert_block_shift:
  assumes "ind \<le> length xs" "length xs < c"
  shows "(shr ((repr xs c)[length xs := Some x]) ind (length xs))[ind := Some y]
         = repr (take ind xs @ y # drop ind xs) c"
proof (cases "xs = []")
  case True
  with assms show ?thesis
    by (intro nth_equalityI) (auto simp: shr_nth repr_nth nth_list_update nth_Cons')
next
  case False
  then have "length xs - Suc 0 < length xs" by simp
  with assms show ?thesis
    by (intro nth_equalityI)
      (auto simp: shr_nth repr_nth nth_list_update nth_append nth_Cons' min_def)
qed

lemma erase_block:
  assumes "ind < length xs" "length xs \<le> c"
  shows "(shl (repr xs c) ind (length xs - 1))[length xs - 1 := None]
         = repr (take ind xs @ drop (Suc ind) xs) c"
  using assms
  by (intro nth_equalityI) (auto simp: shl_nth repr_nth nth_list_update nth_append min_def)

subsection \<open>The member functions on a consistent container\<close>

text \<open>
  Each lemma gives the result of a call on a container that holds \<open>xs\<close>, the sequence it
  holds afterwards, and the frame of the call.
\<close>

lemma repr_full: "repr xs (length xs) = map Some xs"
  by (simp add: repr_def)

lemma read_ref_InsideD:
  assumes "read_ref (Inside p) st = Some x"
  obtains a b where "fst p = Some a" "block_at st a = Some b" "0 \<le> snd p"
    "nat (snd p) < length b" "b ! nat (snd p) = Some x"
  using assms
  by (auto simp: read_ref_def load_ptr_def load_def split: if_splits option.splits)

lemma read_ref_stable:
  assumes "read_ref r st = Some x"
    and "\<And>p a. r = Inside p \<Longrightarrow> fst p = Some a \<Longrightarrow> a < length (mem st) \<Longrightarrow>
      block_at st' a = block_at st a"
  shows "read_ref r st' = Some x"
proof (cases r)
  case (Outside y)
  with assms(1) show ?thesis by (simp add: read_ref_def)
next
  case (Inside p)
  from assms(1)[unfolded Inside] obtain a b where a: "fst p = Some a"
    and b: "block_at st a = Some b" "0 \<le> snd p" "nat (snd p) < length b"
      "b ! nat (snd p) = Some x"
    by (rule read_ref_InsideD)
  from b(1) have "a < length (mem st)" by (rule block_at_SomeD)
  from assms(2)[OF Inside a this] b a show ?thesis
    by (simp add: Inside read_ref_def load_ptr_def load_def)
qed

lemma read_index_ElementD:
  assumes "read_index (Element p f) st = Some n"
  obtains a b x where "fst p = Some a" "block_at st a = Some b" "0 \<le> snd p"
    "nat (snd p) < length b" "b ! nat (snd p) = Some x" "f x = n"
  using assms
  by (auto simp: read_index_def load_ptr_def load_def split: if_splits option.splits)

lemma read_index_frame:
  assumes "read_index ind st = Some n" "index_free ind st this" "objs st this = Some v"
    "\<forall>a. a < length (mem st) \<longrightarrow> data_m v \<noteq> Some a \<longrightarrow> block_at st' a = block_at st a"
  shows "read_index ind st' = Some n"
proof (cases ind)
  case (Index m)
  with assms(1) show ?thesis by simp
next
  case (Element p f)
  from assms(1)[unfolded Element] obtain a b x where a: "fst p = Some a"
    and b: "block_at st a = Some b" "0 \<le> snd p" "nat (snd p) < length b"
      "b ! nat (snd p) = Some x" "f x = n"
    by (rule read_index_ElementD)
  from b(1) have "a < length (mem st)" by (rule block_at_SomeD)
  moreover from assms(2,3) a have "data_m v \<noteq> Some a"
    by (auto simp: Element index_free_def buffer_def)
  ultimately have "block_at st' a = block_at st a" using assms(4) by simp
  with b a show ?thesis
    by (simp add: Element read_index_def load_ptr_def load_def)
qed

lemma index_free_Index [simp]: "index_free (Index n) st this"
  by (simp add: index_free_def)

lemma insert_at_realloc:
  assumes v: "objs st this = Some v" and h: "holds st this xs" and n: "n \<le> length xs"
    and full: "capacity_m v \<le> length xs" and r: "read_ref val st = Some x"
    and ri: "read_index ind st = Some n" and fr: "index_free ind st this"
  defines "c \<equiv> (if capacity_m v = 0 then 1 else capacity_m v * 2)"
  shows "\<exists>st'. insert_at this ind val st =
            Some (Inr (Iterator (Some (length (mem st)), int n) (Some this)), st') \<and>
          objs st' = (objs st)(this \<mapsto> \<lparr>data_m = Some (length (mem st)), size_m = length xs + 1, capacity_m = c\<rparr>) \<and>
          block_at st' (length (mem st)) = Some (repr (take n xs @ x # drop n xs) c) \<and>
          (\<forall>a. a < length (mem st) \<longrightarrow> data_m v \<noteq> Some a \<longrightarrow> block_at st' a = block_at st a) \<and>
          length (mem st) \<le> length (mem st')"
proof -
  from h v have sz: "size_m v = length xs" and cap: "capacity_m v = length xs"
    using full by (auto simp: holds_def)
  let ?nd = "length (mem st)"
  let ?st1 = "new_block c st"
  let ?sb = "map Some xs :: 'a block"
  let ?b2 = "blit ?sb 0 0 n (replicate c None)"
  let ?b3 = "?b2[n := Some x]"
  let ?b4 = "blit ?sb 1 n (length xs) ?b3"
  let ?v' = "\<lparr>data_m = Some ?nd, size_m = length xs + 1, capacity_m = c\<rparr>"
  have clt: "length xs < c" using cap by (simp add: c_def)
  have fin: "?b4 = repr (take n xs @ x # drop n xs) c"
    using n clt by (rule insert_block_realloc)
  show ?thesis
  proof (cases "data_m v")
    case None
    with h v have xs: "xs = []" by (auto simp: holds_def)
    with n have i0: "n = 0" by simp
    have c1: "construct (Some ?nd) 0 x ?st1 = Some (set_block ?nd ((replicate c None)[0 := Some x]) ?st1)"
      using clt by (intro construct_Some) auto
    have r1: "read_ref val ?st1 = Some x"
      using r by (rule read_ref_stable) simp
    have i1: "read_index ind ?st1 = Some n"
      "read_index ind (set_block ?nd ((replicate c None)[0 := Some x]) ?st1) = Some n"
      "read_index ind (set_obj this ?v'
         (set_block ?nd ((replicate c None)[0 := Some x]) ?st1)) = Some n"
      by (rule read_index_frame[OF ri fr v], simp)+
    have b: "(replicate c None)[0 := Some x] = repr (take n xs @ x # drop n xs) c"
      using fin xs i0 by (simp add: blit_empty)
    show ?thesis
      using v None sz cap xs i0 c1 b r1 i1 ri
      by (simp add: insert_at_def Let_def c_def operator_new_eq copy_loop_done
          copy_until_done destroy_loop_done)
  next
    case (Some a)
    with h v cap have ba: "block_at st a = Some ?sb" by (auto simp: holds_def repr_full)
    then have alt: "a < ?nd" by (rule block_at_SomeD)
    have ba1: "block_at ?st1 a = Some ?sb" using ba alt by simp
    have bn1: "block_at ?st1 ?nd = Some (replicate c None)" by simp
    have ne: "a \<noteq> ?nd" using alt by simp
    have live: "\<forall>j. i \<le> j \<and> j < length xs \<longrightarrow> ?sb ! j \<noteq> None" for i by simp
    have live': "\<forall>j. 0 \<le> j \<and> j < n \<longrightarrow> ?sb ! j \<noteq> None" using n by simp
    let ?st2 = "set_block ?nd ?b2 ?st1"
    have rd: "read_index ind st' = Some n"
      if "\<forall>a'. a' < ?nd \<longrightarrow> a' \<noteq> a \<longrightarrow> block_at st' a' = block_at st a'" for st'
      using that Some by (intro read_index_frame[OF ri fr v]) simp
    have st: "\<forall>b'. read_index ind (set_block ?nd b' ?st1) = Some n"
      by (intro allI rd) simp
    have s2: "copy_until (Some a) (Some ?nd) ind 0 ?st1 = Some ?st2"
      using n clt by (intro copy_until_blit[OF ba1 ne _ live' bn1 _ st]) auto
    have i2: "read_index ind ?st2 = Some n" by (intro rd) simp
    let ?st3 = "set_block ?nd ?b3 ?st1"
    have r2: "read_ref val ?st2 = Some x"
      using r by (rule read_ref_stable) simp
    have s3: "construct (Some ?nd) n x ?st2 = Some ?st3"
      using construct_Some[of ?st2 ?nd ?b2 n x] n clt by simp
    have i3: "read_index ind ?st3 = Some n" by (intro rd) simp
    let ?st4 = "set_block ?nd ?b4 ?st1"
    have ba3: "block_at ?st3 a = Some ?sb" using ba1 ne by simp
    have bn3: "block_at ?st3 ?nd = Some ?b3" by simp
    have s4: "copy_loop (Some a) (Some ?nd) 1 n (length xs) ?st3 = Some ?st4"
      using copy_loop_blit[OF ba3 ne _ live bn3, of 1] clt by simp
    let ?st5 = "set_block a (wipe ?sb 0 (length xs)) ?st4"
    have ba4: "block_at ?st4 a = Some ?sb" using ba1 ne by simp
    have s5: "destroy_loop (Some a) 0 (length xs) ?st4 = Some ?st5"
      using destroy_loop_wipe[OF ba4 _ live] by simp
    have s6: "operator_delete (Some a) ?st5 = Some (free_block a ?st5)"
      using alt by (intro operator_delete_Some) simp
    let ?st' = "set_obj this ?v' (free_block a ?st5)"
    have i7: "read_index ind ?st' = Some n" by (intro rd) simp
    have call: "insert_at this ind val st = Some (Inr (Iterator (Some ?nd, int n) (Some this)), ?st')"
      using v Some sz cap n ri s2 i2 r2 s3 i3 s4 s5 s6 i7
      by (cases "xs = []") (simp_all add: insert_at_def Let_def c_def operator_new_eq)
    have "block_at ?st' ?nd = Some (repr (take n xs @ x # drop n xs) c)"
      using ne fin by simp
    moreover have "\<forall>a'. a' < ?nd \<longrightarrow> data_m v \<noteq> Some a' \<longrightarrow> block_at ?st' a' = block_at st a'"
      using Some by simp
    moreover have "objs ?st' = (objs st)(this \<mapsto> ?v')" by simp
    moreover have "?nd \<le> length (mem ?st')" by simp
    ultimately show ?thesis using call by blast
  qed
qed

lemma post_intro:
  assumes "objs st this = Some v" "objs st' = (objs st)(this \<mapsto> v')"
    "size_m v' = length ys" "length ys \<le> capacity_m v'"
    "case data_m v' of None \<Rightarrow> capacity_m v' = 0
     | Some a \<Rightarrow> block_at st' a = Some (repr ys (capacity_m v'))"
    "\<forall>a. a < length (mem st) \<longrightarrow> data_m v \<noteq> Some a \<longrightarrow> block_at st' a = block_at st a"
    "data_m v' = data_m v \<or> (\<exists>a. data_m v' = Some a \<and> length (mem st) \<le> a)"
    "length (mem st) \<le> length (mem st')"
  shows "holds st' this ys \<and> frame st this st'"
  using assms by (auto simp: holds_def frame_def buffer_def)

lemma reread_shifted:
  assumes r: "read_ref val st = Some x" and ba: "block_at st a = Some (repr xs c)"
    and room: "length xs < c" and ind: "ind \<le> length xs"
  shows "\<exists>y. read_ref val
            (set_block a (shr ((repr xs c)[length xs := Some x]) ind (length xs)) st) = Some y \<and>
          ((\<forall>p. val = Inside p \<longrightarrow> fst p \<noteq> Some a) \<longrightarrow> y = x)"
proof (cases "\<forall>p. val = Inside p \<longrightarrow> fst p \<noteq> Some a")
  case True
  have "read_ref val
      (set_block a (shr ((repr xs c)[length xs := Some x]) ind (length xs)) st) = Some x"
    using r by (rule read_ref_stable) (use True in auto)
  then show ?thesis by blast
next
  case False
  then obtain p where p: "val = Inside p" "fst p = Some a" by auto
  let ?b2 = "shr ((repr xs c)[length xs := Some x]) ind (length xs)"
  from r[unfolded p(1)] obtain a' b where "fst p = Some a'" "block_at st a' = Some b"
    and nn: "0 \<le> snd p" and lt: "nat (snd p) < length b" and lv: "b ! nat (snd p) = Some x"
    by (rule read_ref_InsideD)
  with p(2) ba have b: "b = repr xs c" by simp
  from lt lv b room have j: "nat (snd p) < length xs"
    by (cases "nat (snd p) < length xs") (auto simp: repr_nth)
  have alt: "a < length (mem st)" using ba by (rule block_at_SomeD)
  have "?b2 ! nat (snd p) \<noteq> None"
    using j room ind by (auto simp: shr_nth repr_nth nth_list_update)
  then obtain y where "?b2 ! nat (snd p) = Some y" by auto
  then have "read_ref val (set_block a ?b2 st) = Some y"
    using p nn j room alt by (simp add: read_ref_def load_ptr_def load_def)
  with False show ?thesis by blast
qed

lemma insert_at_shift:
  assumes v: "objs st this = Some v" and h: "holds st this xs" and n: "n \<le> length xs"
    and room: "length xs < capacity_m v" and r: "read_ref val st = Some x"
    and ri: "read_index ind st = Some n" and fr: "index_free ind st this"
  shows "\<exists>st' a y. insert_at this ind val st =
            Some (Inr (Iterator (Some a, int n) (Some this)), st') \<and> data_m v = Some a \<and>
          objs st' = (objs st)(this \<mapsto> v\<lparr>size_m := length xs + 1\<rparr>) \<and>
          block_at st' a = Some (repr (take n xs @ y # drop n xs) (capacity_m v)) \<and>
          (\<forall>a'. a' \<noteq> a \<longrightarrow> block_at st' a' = block_at st a') \<and>
          length (mem st') = length (mem st) \<and>
          ((\<forall>p. val = Inside p \<longrightarrow> fst p \<noteq> Some a) \<longrightarrow> y = x)"
proof -
  let ?c = "capacity_m v"
  from h v have sz: "size_m v = length xs" by (auto simp: holds_def)
  from h v room obtain a where a: "data_m v = Some a"
    by (cases "data_m v") (auto simp: holds_def)
  with h v have ba: "block_at st a = Some (repr xs ?c)" by (auto simp: holds_def)
  then have alt: "a < length (mem st)" by (rule block_at_SomeD)
  let ?b1 = "(repr xs ?c)[length xs := Some x]"
  let ?st1 = "set_block a ?b1 st"
  have s1: "construct (Some a) (length xs) x st = Some ?st1"
    using room by (intro construct_Some[OF ba]) simp
  let ?b2 = "shr ?b1 n (length xs)"
  let ?st2 = "set_block a ?b2 st"
  have ba1: "block_at ?st1 a = Some ?b1" using alt by simp
  have live1: "\<forall>j. n \<le> j \<and> j \<le> length xs \<longrightarrow> ?b1 ! j \<noteq> None"
    using room by (auto simp: nth_list_update repr_nth)
  have rd: "read_index ind st' = Some n"
    if "\<forall>a'. a' \<noteq> a \<longrightarrow> block_at st' a' = block_at st a'" for st'
    using that a by (intro read_index_frame[OF ri fr v]) simp
  have st: "\<forall>b'. read_index ind (set_block a b' ?st1) = Some n"
    by (intro allI rd) simp
  have s2: "shift_right (Some a) (length xs) ind ?st1 = Some ?st2"
    using shift_right_shr[OF ba1 _ live1 st] room by simp
  have i2: "read_index ind ?st2 = Some n" by (intro rd) simp
  from reread_shifted[OF r ba room n] obtain y where
    r2: "read_ref val ?st2 = Some y"
    and y: "(\<forall>p. val = Inside p \<longrightarrow> fst p \<noteq> Some a) \<longrightarrow> y = x"
    by blast
  let ?b3 = "?b2[n := Some y]"
  let ?st3 = "set_block a ?b3 st"
  have ba2: "block_at ?st2 a = Some ?b2" using alt by simp
  have "?b2 ! n \<noteq> None"
    using room n by (auto simp: shr_nth nth_list_update repr_nth)
  then have s3: "assign (Some a) n y ?st2 = Some ?st3"
    using assign_Some[OF ba2, of n y] room n by simp
  let ?st' = "set_obj this (v\<lparr>size_m := length xs + 1\<rparr>) ?st3"
  have i4: "read_index ind ?st' = Some n" by (intro rd) simp
  have call: "insert_at this ind val st = Some (Inr (Iterator (Some a, int n) (Some this)), ?st')"
    using v a sz n room ri r s1 s2 i2 r2 s3 i4 by (simp add: insert_at_def)
  have fin: "?b3 = repr (take n xs @ y # drop n xs) ?c"
    using n room by (rule insert_block_shift)
  have "block_at ?st' a = Some (repr (take n xs @ y # drop n xs) ?c)"
    using alt fin by simp
  moreover have "\<forall>a'. a' \<noteq> a \<longrightarrow> block_at ?st' a' = block_at st a'" by simp
  moreover have "objs ?st' = (objs st)(this \<mapsto> v\<lparr>size_m := length xs + 1\<rparr>)" by simp
  moreover have "length (mem ?st') = length (mem st)" by simp
  ultimately show ?thesis using call a y by blast
qed

lemma insert_at_post:
  assumes v: "objs st this = Some v" and h: "holds st this xs" and n: "n \<le> length xs"
    and r: "read_ref val st = Some x"
    and ri: "read_index ind st = Some n" and fr: "index_free ind st this"
  shows "\<exists>st' v' y. insert_at this ind val st =
            Some (Inr (Iterator (data_m v', int n) (Some this)), st') \<and>
          objs st' this = Some v' \<and>
          capacity_m v' = (if capacity_m v \<le> length xs
                           then (if capacity_m v = 0 then 1 else capacity_m v * 2)
                           else capacity_m v) \<and>
          holds st' this (take n xs @ y # drop n xs) \<and> frame st this st' \<and>
          (capacity_m v \<le> length xs \<or> alias_free val st this \<longrightarrow> y = x)"
proof (cases "capacity_m v \<le> length xs")
  case True
  let ?c = "if capacity_m v = 0 then 1 else capacity_m v * 2"
  let ?v' = "\<lparr>data_m = Some (length (mem st)), size_m = length xs + 1, capacity_m = ?c\<rparr>"
  from h v True have "capacity_m v = length xs" by (auto simp: holds_def)
  then have lt: "length xs < ?c" by simp
  from insert_at_realloc[OF v h n True r ri fr] obtain st' where
    c: "insert_at this ind val st = Some (Inr (Iterator (Some (length (mem st)), int n) (Some this)), st')"
    and o: "objs st' = (objs st)(this \<mapsto> ?v')"
    and b: "block_at st' (length (mem st)) = Some (repr (take n xs @ x # drop n xs) ?c)"
    and f: "\<forall>a. a < length (mem st) \<longrightarrow> data_m v \<noteq> Some a \<longrightarrow> block_at st' a = block_at st a"
    and l: "length (mem st) \<le> length (mem st')"
    by blast
  have "holds st' this (take n xs @ x # drop n xs) \<and> frame st this st'"
    using n lt b by (intro post_intro[OF v o _ _ _ f _ l]) auto
  with c o True show ?thesis by (intro exI[of _ st'] exI[of _ ?v'] exI[of _ x]) simp
next
  case False
  then have room: "length xs < capacity_m v" by simp
  let ?v' = "v\<lparr>size_m := length xs + 1\<rparr>"
  from insert_at_shift[OF v h n room r ri fr] obtain st' a y where
    c: "insert_at this ind val st = Some (Inr (Iterator (Some a, int n) (Some this)), st')"
    and a: "data_m v = Some a"
    and o: "objs st' = (objs st)(this \<mapsto> ?v')"
    and b: "block_at st' a = Some (repr (take n xs @ y # drop n xs) (capacity_m v))"
    and f: "\<forall>a'. a' \<noteq> a \<longrightarrow> block_at st' a' = block_at st a'"
    and l: "length (mem st') = length (mem st)"
    and y: "(\<forall>p. val = Inside p \<longrightarrow> fst p \<noteq> Some a) \<longrightarrow> y = x"
    by blast
  have "holds st' this (take n xs @ y # drop n xs) \<and> frame st this st'"
    using n room a b f l by (intro post_intro[OF v o]) auto
  moreover have "alias_free val st this \<longrightarrow> y = x"
    using y v a by (auto simp: alias_free_def buffer_def split: cref.splits)
  ultimately show ?thesis
    using c o a False by (intro exI[of _ st'] exI[of _ ?v'] exI[of _ y]) simp
qed

lemma holds_buffer:
  assumes "objs st this = Some v" "holds st this xs" "xs \<noteq> []"
  obtains a where "data_m v = Some a" "block_at st a = Some (repr xs (capacity_m v))"
    "a < length (mem st)"
  using assms by (cases "data_m v") (auto simp: holds_def dest: block_at_SomeD)

lemma erase_post:
  assumes v: "objs st this = Some v" and h: "holds st this xs" and n: "n < length xs"
    and ri: "read_index ind st = Some n" and fr: "index_free ind st this"
  shows "\<exists>st'. erase this ind st = Some (Inr (Iterator (data_m v, int n) (Some this)), st') \<and>
          objs st' this = Some (v\<lparr>size_m := length xs - 1\<rparr>) \<and>
          holds st' this (take n xs @ drop (Suc n) xs) \<and> frame st this st'"
proof -
  let ?c = "capacity_m v" and ?n = "length xs"
  from h v have sz: "size_m v = ?n" and le: "?n \<le> ?c" by (auto simp: holds_def)
  from n have ne: "xs \<noteq> []" by auto
  from holds_buffer[OF v h ne] obtain a where a: "data_m v = Some a"
    and ba: "block_at st a = Some (repr xs ?c)" and alt: "a < length (mem st)" by blast
  let ?b1 = "shl (repr xs ?c) n (?n - 1)"
  let ?st1 = "set_block a ?b1 st"
  have live: "\<forall>j. n \<le> j \<and> j \<le> ?n - 1 \<longrightarrow> repr xs ?c ! j \<noteq> None"
    using le n by (auto simp: repr_nth)
  have s1: "shift_left (Some a) n (?n - 1) st = Some ?st1"
    using shift_left_shl[OF ba _ live] le n by simp
  let ?b2 = "?b1[?n - 1 := None]"
  let ?st2 = "set_block a ?b2 st"
  have ba1: "block_at ?st1 a = Some ?b1" using alt by simp
  have "?b1 ! (?n - 1) \<noteq> None" using le n by (simp add: shl_nth repr_nth)
  then have s2: "destroy (Some a) (?n - 1) ?st1 = Some ?st2"
    using destroy_Some[OF ba1, of "?n - 1"] le n by simp
  let ?v' = "v\<lparr>size_m := ?n - 1\<rparr>"
  let ?st' = "set_obj this ?v' ?st2"
  have i3: "read_index ind ?st' = Some n"
    using a by (intro read_index_frame[OF ri fr v]) simp
  have call: "erase this ind st = Some (Inr (Iterator (data_m v, int n) (Some this)), ?st')"
    using v a sz n ri s1 s2 i3 by (simp add: erase_def)
  have fin: "?b2 = repr (take n xs @ drop (Suc n) xs) ?c"
    using n le by (rule erase_block)
  have "holds ?st' this (take n xs @ drop (Suc n) xs) \<and> frame st this ?st'"
    using n le a alt fin by (intro post_intro[OF v, of _ ?v']) auto
  with call show ?thesis by (intro exI[of _ ?st']) simp
qed

lemma pop_block:
  assumes "xs \<noteq> []" "length xs \<le> c"
  shows "(repr xs c)[length xs - 1 := None] = repr (butlast xs) c"
  using assms
  by (intro nth_equalityI) (auto simp: repr_nth nth_list_update nth_butlast)

lemma pop_back_post:
  assumes v: "objs st this = Some v" and h: "holds st this xs" and ne: "xs \<noteq> []"
  shows "\<exists>st'. pop_back this st = Some (Inr (), st') \<and>
          objs st' this = Some (v\<lparr>size_m := length xs - 1\<rparr>) \<and>
          holds st' this (butlast xs) \<and> frame st this st'"
proof -
  let ?c = "capacity_m v" and ?n = "length xs"
  from h v have sz: "size_m v = ?n" and le: "?n \<le> ?c" by (auto simp: holds_def)
  from holds_buffer[OF v h ne] obtain a where a: "data_m v = Some a"
    and ba: "block_at st a = Some (repr xs ?c)" and alt: "a < length (mem st)" by blast
  let ?b1 = "(repr xs ?c)[?n - 1 := None]"
  let ?st1 = "set_block a ?b1 st"
  have lt1: "?n - 1 < ?n" using ne by (cases xs) auto
  have "repr xs ?c ! (?n - 1) \<noteq> None" using le lt1 by (simp add: repr_nth)
  then have s1: "destroy (Some a) (?n - 1) st = Some ?st1"
    using destroy_Some[OF ba, of "?n - 1"] le lt1 by simp
  let ?v' = "v\<lparr>size_m := ?n - 1\<rparr>"
  let ?st' = "set_obj this ?v' ?st1"
  have call: "pop_back this st = Some (Inr (), ?st')"
    using v a sz ne s1 by (simp add: pop_back_def)
  have fin: "?b1 = repr (butlast xs) ?c" using ne le by (rule pop_block)
  have "holds ?st' this (butlast xs) \<and> frame st this ?st'"
    using le a alt fin by (intro post_intro[OF v, of _ ?v']) auto
  with call show ?thesis by (intro exI[of _ ?st']) simp
qed

lemma wipe_repr: "length xs \<le> c \<Longrightarrow> wipe (repr xs c) 0 (length xs) = repr [] c"
  by (intro nth_equalityI) (auto simp: wipe_nth repr_nth)

lemma clear_post:
  assumes v: "objs st this = Some v" and h: "holds st this xs"
  shows "\<exists>st'. clear this st = Some st' \<and> objs st' this = Some (v\<lparr>size_m := 0\<rparr>) \<and>
          holds st' this [] \<and> frame st this st'"
proof (cases "data_m v")
  case None
  with h v have "xs = []" and sz: "size_m v = 0" by (auto simp: holds_def)
  let ?v' = "v\<lparr>size_m := 0\<rparr>"
  let ?st' = "set_obj this ?v' st"
  have call: "clear this st = Some ?st'"
    using v sz by (simp add: clear_def destroy_loop_done)
  have "holds ?st' this [] \<and> frame st this ?st'"
    using h v None by (intro post_intro[OF v, of _ ?v']) (auto simp: holds_def)
  with call show ?thesis by (intro exI[of _ ?st']) simp
next
  case (Some a)
  let ?c = "capacity_m v" and ?n = "length xs"
  from h v have sz: "size_m v = ?n" and le: "?n \<le> ?c" by (auto simp: holds_def)
  from h v Some have ba: "block_at st a = Some (repr xs ?c)" by (auto simp: holds_def)
  then have alt: "a < length (mem st)" by (rule block_at_SomeD)
  let ?st1 = "set_block a (wipe (repr xs ?c) 0 ?n) st"
  have live: "\<forall>j. 0 \<le> j \<and> j < ?n \<longrightarrow> repr xs ?c ! j \<noteq> None"
    using le by (auto simp: repr_nth)
  have s1: "destroy_loop (Some a) 0 ?n st = Some ?st1"
    using destroy_loop_wipe[OF ba _ live] le by simp
  let ?v' = "v\<lparr>size_m := 0\<rparr>"
  let ?st' = "set_obj this ?v' ?st1"
  have call: "clear this st = Some ?st'"
    using v Some sz s1 by (simp add: clear_def)
  have "holds ?st' this [] \<and> frame st this ?st'"
    using le Some alt wipe_repr[OF le] by (intro post_intro[OF v, of _ ?v']) auto
  with call show ?thesis by (intro exI[of _ ?st']) simp
qed

lemma blit_repr:
  assumes "length xs \<le> c" "length xs \<le> c'"
  shows "blit (repr xs c) 0 0 (length xs) (replicate c' None) = repr xs c'"
  using assms by (intro nth_equalityI) (auto simp: blit_nth repr_nth)

lemma reallocate_post:
  assumes v: "objs st this = Some v" and h: "holds st this xs" and le': "length xs \<le> c'"
  shows "\<exists>st'. reallocate this c' st = Some st' \<and>
          objs st' = (objs st)(this \<mapsto> v\<lparr>data_m := Some (length (mem st)), capacity_m := c'\<rparr>) \<and>
          block_at st' (length (mem st)) = Some (repr xs c') \<and>
          (\<forall>a. a < length (mem st) \<longrightarrow> data_m v \<noteq> Some a \<longrightarrow> block_at st' a = block_at st a) \<and>
          length (mem st') = Suc (length (mem st))"
proof (cases "data_m v")
  case None
  with h v have xs: "xs = []" and sz: "size_m v = 0" by (auto simp: holds_def)
  show ?thesis
    using v None sz xs
    by (simp add: reallocate_def operator_new_eq copy_loop_done destroy_loop_done repr_def)
next
  case (Some a)
  let ?c = "capacity_m v" and ?n = "length xs" and ?nd = "length (mem st)"
  from h v have sz: "size_m v = ?n" and le: "?n \<le> ?c" by (auto simp: holds_def)
  from h v Some have ba: "block_at st a = Some (repr xs ?c)" by (auto simp: holds_def)
  then have alt: "a < ?nd" by (rule block_at_SomeD)
  then have ne: "a \<noteq> ?nd" by simp
  let ?st1 = "new_block c' st"
  have ba1: "block_at ?st1 a = Some (repr xs ?c)" using ba ne by simp
  have bn1: "block_at ?st1 ?nd = Some (replicate c' None)" by simp
  have live: "\<forall>j. 0 \<le> j \<and> j < ?n \<longrightarrow> repr xs ?c ! j \<noteq> None"
    using le by (auto simp: repr_nth)
  let ?st2 = "set_block ?nd (repr xs c') ?st1"
  have s2: "copy_loop (Some a) (Some ?nd) 0 0 ?n ?st1 = Some ?st2"
    using copy_loop_blit[OF ba1 ne _ live bn1, of 0] le le' blit_repr[OF le le'] by simp
  let ?st3 = "set_block a (wipe (repr xs ?c) 0 ?n) ?st2"
  have ba2: "block_at ?st2 a = Some (repr xs ?c)" using ba1 ne by simp
  have s3: "destroy_loop (Some a) 0 ?n ?st2 = Some ?st3"
    using destroy_loop_wipe[OF ba2 _ live] le by simp
  have s4: "operator_delete (Some a) ?st3 = Some (free_block a ?st3)"
    using alt by (intro operator_delete_Some) simp
  show ?thesis
    using v Some sz s2 s3 s4 ne
    by (simp add: reallocate_def operator_new_eq)
qed

lemma push_block:
  assumes "length xs < c"
  shows "(repr xs c)[length xs := Some x] = repr (xs @ [x]) c"
  using assms by (intro nth_equalityI) (auto simp: repr_nth nth_list_update nth_append)

lemma push_back_post:
  assumes v: "objs st this = Some v" and h: "holds st this xs"
    and r: "read_ref val st = Some x"
    and al: "alias_free val st this \<or> length xs < capacity_m v"
  shows "\<exists>st' v'. push_back this val st = Some st' \<and> objs st' this = Some v' \<and>
          capacity_m v' = (if capacity_m v \<le> length xs
                           then (if capacity_m v = 0 then 1 else capacity_m v * 2)
                           else capacity_m v) \<and>
          holds st' this (xs @ [x]) \<and> frame st this st'"
proof (cases "capacity_m v \<le> length xs")
  case True
  let ?c = "if capacity_m v = 0 then 1 else capacity_m v * 2" and ?nd = "length (mem st)"
  let ?v1 = "v\<lparr>data_m := Some ?nd, capacity_m := ?c\<rparr>"
  from h v have sz: "size_m v = length xs" by (auto simp: holds_def)
  from h v True have "capacity_m v = length xs" by (auto simp: holds_def)
  then have lt: "length xs < ?c" by simp
  then have le': "length xs \<le> ?c" by simp
  from al True have af: "alias_free val st this" by simp
  from reallocate_post[OF v h le'] obtain st1 where
    re: "reallocate this ?c st = Some st1"
    and o1: "objs st1 = (objs st)(this \<mapsto> ?v1)"
    and b1: "block_at st1 ?nd = Some (repr xs ?c)"
    and f1: "\<forall>a. a < ?nd \<longrightarrow> data_m v \<noteq> Some a \<longrightarrow> block_at st1 a = block_at st a"
    and l1: "length (mem st1) = Suc ?nd"
    by blast
  have r1: "read_ref val st1 = Some x"
    using r
  proof (rule read_ref_stable)
    fix p a assume "val = Inside p" "fst p = Some a" "a < ?nd"
    with af v f1 show "block_at st1 a = block_at st a"
      by (auto simp: alias_free_def buffer_def)
  qed
  let ?st2 = "set_block ?nd ((repr xs ?c)[length xs := Some x]) st1"
  have s2: "construct (Some ?nd) (length xs) x st1 = Some ?st2"
    using lt by (intro construct_Some[OF b1]) simp
  let ?v' = "?v1\<lparr>size_m := length xs + 1\<rparr>"
  let ?st' = "set_obj this ?v' ?st2"
  have call: "push_back this val st = Some ?st'"
    using v True sz re o1 r1 s2 by (simp add: push_back_def)
  have "holds ?st' this (xs @ [x]) \<and> frame st this ?st'"
    using lt l1 f1 push_block[OF lt, of x] o1
    by (intro post_intro[OF v, of _ ?v']) auto
  with call True show ?thesis by (intro exI[of _ ?st'] exI[of _ ?v']) simp
next
  case False
  then have room: "length xs < capacity_m v" by simp
  let ?c = "capacity_m v"
  from h v have sz: "size_m v = length xs" by (auto simp: holds_def)
  from h v room obtain a where a: "data_m v = Some a"
    by (cases "data_m v") (auto simp: holds_def)
  with h v have ba: "block_at st a = Some (repr xs ?c)" by (auto simp: holds_def)
  then have alt: "a < length (mem st)" by (rule block_at_SomeD)
  let ?st2 = "set_block a ((repr xs ?c)[length xs := Some x]) st"
  have s2: "construct (Some a) (length xs) x st = Some ?st2"
    using room by (intro construct_Some[OF ba]) simp
  let ?v' = "v\<lparr>size_m := length xs + 1\<rparr>"
  let ?st' = "set_obj this ?v' ?st2"
  have call: "push_back this val st = Some ?st'"
    using v room sz a r s2 by (simp add: push_back_def)
  have "holds ?st' this (xs @ [x]) \<and> frame st this ?st'"
    using room a alt push_block[OF room, of x]
    by (intro post_intro[OF v, of _ ?v']) auto
  with call False show ?thesis by (intro exI[of _ ?st'] exI[of _ ?v']) simp
qed

lemma read_ref_Outside [simp]: "read_ref (Outside x) st = Some x"
  by (simp add: read_ref_def)

lemma alias_free_Outside [simp]: "alias_free (Outside x) st this"
  by (simp add: alias_free_def)

subsection \<open>Observations, frames and copies\<close>

lemma those_map_Some [simp]: "those (map Some xs) = Some xs"
  by (induction xs) auto

lemma holds_load:
  assumes "objs st this = Some v" "holds st this xs" "i < length xs"
  shows "load (data_m v) i st = Some (xs ! i)"
proof -
  from assms(3) have "xs \<noteq> []" by auto
  from holds_buffer[OF assms(1,2) this] obtain a where a: "data_m v = Some a"
    and ba: "block_at st a = Some (repr xs (capacity_m v))" by blast
  from assms(1,2) have le: "length xs \<le> capacity_m v" by (auto simp: holds_def)
  show ?thesis using a le assms(3) by (simp add: load_Some[OF ba] repr_nth)
qed

lemma holds_elements:
  assumes "holds st this xs"
  shows "elements st this = Some xs"
proof -
  from assms obtain v where v: "objs st this = Some v" and sz: "size_m v = length xs"
    by (auto simp: holds_def split: option.splits)
  have "map (\<lambda>i. load (data_m v) i st) [0..<length xs] = map (\<lambda>i. Some (xs ! i)) [0..<length xs]"
    using holds_load[OF v assms] by simp
  also have "\<dots> = map Some (map ((!) xs) [0..<length xs])" by simp
  also have "\<dots> = map Some xs" by (simp only: map_nth)
  finally show ?thesis using v sz by (simp add: elements_def)
qed

lemma holds_size: "holds st this xs \<Longrightarrow> size_vec this st = Some (length xs)"
  by (auto simp: holds_def size_vec_def split: option.splits)

lemma frame_holds:
  assumes "frame st this st'" "holds st other ys" "separate st this other"
  shows "holds st' other ys \<and> separate st' this other"
proof -
  from assms(3) have ne: "other \<noteq> this" by (auto simp: separate_def)
  with assms(1) have o: "objs st' other = objs st other" by (simp add: frame_def)
  then have bo: "buffer st' other = buffer st other" by (simp add: buffer_def)
  from assms(2) obtain w where w: "objs st other = Some w" 
    by (auto simp: holds_def split: option.splits)
  have bw: "buffer st other = data_m w" using w by (simp add: buffer_def)
  have lt: "a < length (mem st)" if "data_m w = Some a" for a
    using assms(2) w that by (auto simp: holds_def dest: block_at_SomeD)
  have "holds st' other ys"
  proof (cases "data_m w")
    case None
    with assms(2) w o show ?thesis by (auto simp: holds_def)
  next
    case (Some a)
    with assms(3) bw have "buffer st this \<noteq> Some a" by (auto simp: separate_def)
    with assms(1) lt[OF Some] have "block_at st' a = block_at st a" by (simp add: frame_def)
    with assms(2) w o Some show ?thesis by (auto simp: holds_def)
  qed
  moreover have "separate st' this other"
  proof -
    from assms(1) consider "buffer st' this = buffer st this"
      | a where "buffer st' this = Some a" "length (mem st) \<le> a"
      by (auto simp: frame_def)
    then show ?thesis
    proof cases
      case 1
      with assms(3) bo show ?thesis by (simp add: separate_def)
    next
      case 2
      with lt bw bo ne show ?thesis by (cases "data_m w") (auto simp: separate_def)
    qed
  qed
  ultimately show ?thesis ..
qed

lemma write_block:
  assumes "i < length xs" "length xs \<le> c"
  shows "(repr xs c)[i := Some x] = repr (xs[i := x]) c"
  using assms by (intro nth_equalityI) (auto simp: repr_nth nth_list_update)

lemma write_post:
  assumes v: "objs st this = Some v" and h: "holds st this xs" and i: "i < length xs"
  shows "\<exists>st'. assign_ptr (data_m v, int i) x st = Some st' \<and> objs st' this = Some v \<and>
          holds st' this (xs[i := x]) \<and> frame st this st'"
proof -
  let ?c = "capacity_m v"
  from h v have sz: "size_m v = length xs" and le: "length xs \<le> ?c" by (auto simp: holds_def)
  from i have ne: "xs \<noteq> []" by auto
  from holds_buffer[OF v h ne] obtain a where a: "data_m v = Some a"
    and ba: "block_at st a = Some (repr xs ?c)" and alt: "a < length (mem st)" by blast
  let ?st' = "set_block a ((repr xs ?c)[i := Some x]) st"
  have "repr xs ?c ! i \<noteq> None" using i le by (simp add: repr_nth)
  then have call: "assign_ptr (data_m v, int i) x st = Some ?st'"
    using assign_Some[OF ba, of i x] a i le by (simp add: assign_ptr_def)
  have o: "objs ?st' = (objs st)(this \<mapsto> v)" using v by auto
  have "holds ?st' this (xs[i := x]) \<and> frame st this ?st'"
    using a alt sz le write_block[OF i le, of x] by (intro post_intro[OF v o]) auto
  with call v show ?thesis by (intro exI[of _ ?st']) simp
qed

lemma copy_elements:
  assumes w: "objs st other = Some w" and h: "holds st other xs" and ne: "xs \<noteq> []"
  shows "copy_loop (data_m w) (Some (length (mem st))) 0 0 (length xs) (new_block (length xs) st)
         = Some (set_block (length (mem st)) (repr xs (length xs)) (new_block (length xs) st))"
proof -
  let ?n = "length xs" and ?nd = "length (mem st)"
  from holds_buffer[OF w h ne] obtain a where a: "data_m w = Some a"
    and ba: "block_at st a = Some (repr xs (capacity_m w))" and alt: "a < ?nd" by blast
  from h w have le: "?n \<le> capacity_m w" by (auto simp: holds_def)
  have ne': "a \<noteq> ?nd" using alt by simp
  have ba1: "block_at (new_block ?n st) a = Some (repr xs (capacity_m w))" using ba ne' by simp
  have bn1: "block_at (new_block ?n st) ?nd = Some (replicate ?n None)" by simp
  have live: "\<forall>j. 0 \<le> j \<and> j < ?n \<longrightarrow> repr xs (capacity_m w) ! j \<noteq> None"
    using le by (auto simp: repr_nth)
  show ?thesis
    using copy_loop_blit[OF ba1 ne' _ live bn1, of 0] le blit_repr[OF le, of ?n] a by simp
qed

lemma holds_empty_vector: "holds (set_obj this empty_vector st) this []"
  by (simp add: holds_def empty_vector_def)

lemma holds_other_set_obj:
  "other \<noteq> this \<Longrightarrow> holds (set_obj this v st) other xs = holds st other xs"
  by (auto simp: holds_def split: option.splits)

lemma holds_other_new:
  assumes "holds st other xs" "other \<noteq> this"
  shows "holds (set_obj this v (set_block (length (mem st)) b (new_block n st))) other xs"
proof -
  from assms(1) obtain w where w: "objs st other = Some w"
    by (auto simp: holds_def split: option.splits)
  have "a \<noteq> length (mem st)" if "data_m w = Some a" for a
    using assms(1) w that by (auto simp: holds_def dest: block_at_SomeD)
  with assms w show ?thesis by (auto simp: holds_def split: option.splits)
qed

lemma vector_copy_post:
  assumes h: "holds st other xs" and ne: "this \<noteq> other"
  shows "\<exists>st'. vector_copy this other st = Some st' \<and> holds st' this xs \<and> holds st' other xs \<and>
          capacity st' this = Some (length xs) \<and> separate st' this other"
proof -
  let ?st0 = "set_obj this empty_vector st"
  from h obtain w where w: "objs st other = Some w" and sz: "size_m w = length xs"
    by (auto simp: holds_def split: option.splits)
  have w0: "objs ?st0 other = Some w" using w ne by simp
  have h0: "holds ?st0 other xs" using h ne by (simp add: holds_other_set_obj)
  show ?thesis
  proof (cases "xs = []")
    case True
    have call: "vector_copy this other st = Some ?st0"
      using w0 sz True by (simp add: vector_copy_def)
    have "separate ?st0 this other" using ne by (simp add: separate_def buffer_def empty_vector_def)
    moreover have "capacity ?st0 this = Some (length xs)"
      using True by (simp add: capacity_def empty_vector_def)
    ultimately show ?thesis using call h0 True holds_empty_vector[of this st] by auto
  next
    case False
    let ?n = "length xs" and ?nd = "length (mem st)"
    let ?v' = "\<lparr>data_m = Some ?nd, size_m = ?n, capacity_m = ?n\<rparr>"
    let ?st' = "set_obj this ?v' (set_block ?nd (repr xs ?n) (new_block ?n ?st0))"
    have call: "vector_copy this other st = Some ?st'"
      using w0 sz False copy_elements[OF w0 h0 False]
      by (simp add: vector_copy_def operator_new_eq)
    have "holds ?st' this xs" by (simp add: holds_def)
    moreover have "holds ?st' other xs"
      using holds_other_new[OF h0, of this ?v' "repr xs ?n" ?n] ne by simp
    moreover have "capacity ?st' this = Some ?n" by (simp add: capacity_def)
    moreover have "separate ?st' this other"
    proof -
      from holds_buffer[OF w h False] obtain a where "data_m w = Some a" "a < ?nd" by blast
      then show ?thesis using ne w by (simp add: separate_def buffer_def)
    qed
    ultimately show ?thesis using call by blast
  qed
qed

lemma release_post:
  assumes v: "objs st this = Some v" and h: "holds st this ys"
  shows "\<exists>st1 st2. destroy_loop (data_m v) 0 (size_m v) st = Some st1 \<and>
          operator_delete (data_m v) st1 = Some st2 \<and> objs st2 = objs st \<and>
          (\<forall>a. data_m v \<noteq> Some a \<longrightarrow> block_at st2 a = block_at st a) \<and>
          length (mem st2) = length (mem st)"
proof (cases "data_m v")
  case None
  with h v have "size_m v = 0" by (auto simp: holds_def)
  with None show ?thesis by (simp add: destroy_loop_done)
next
  case (Some a)
  let ?c = "capacity_m v" and ?n = "length ys"
  from h v have sz: "size_m v = ?n" and le: "?n \<le> ?c" by (auto simp: holds_def)
  from h v Some have ba: "block_at st a = Some (repr ys ?c)" by (auto simp: holds_def)
  then have alt: "a < length (mem st)" by (rule block_at_SomeD)
  let ?st1 = "set_block a (wipe (repr ys ?c) 0 ?n) st"
  have live: "\<forall>j. 0 \<le> j \<and> j < ?n \<longrightarrow> repr ys ?c ! j \<noteq> None"
    using le by (auto simp: repr_nth)
  have s1: "destroy_loop (Some a) 0 ?n st = Some ?st1"
    using destroy_loop_wipe[OF ba _ live] le by simp
  have s2: "operator_delete (Some a) ?st1 = Some (free_block a ?st1)"
    using alt by (intro operator_delete_Some) simp
  show ?thesis using Some sz s1 s2 by simp
qed

lemma operator_assign_post:
  assumes hy: "holds st this ys" and hx: "holds st other xs" and sep: "separate st this other"
  shows "\<exists>st'. operator_assign this other st = Some (Inr this, st') \<and> holds st' this xs \<and>
          holds st' other xs \<and> capacity st' this = Some (length xs) \<and> separate st' this other"
proof -
  from sep have ne: "this \<noteq> other" by (simp add: separate_def)
  from hy obtain v where v: "objs st this = Some v"
    by (auto simp: holds_def split: option.splits)
  from release_post[OF v hy] obtain st1 st2 where
    s1: "destroy_loop (data_m v) 0 (size_m v) st = Some st1"
    and s2: "operator_delete (data_m v) st1 = Some st2"
    and o2: "objs st2 = objs st"
    and f2: "\<forall>a. data_m v \<noteq> Some a \<longrightarrow> block_at st2 a = block_at st a"
    and l2: "length (mem st2) = length (mem st)"
    by blast
  have h2: "holds st2 other xs"
  proof -
    from hx obtain w where w: "objs st other = Some w"
      by (auto simp: holds_def split: option.splits)
    have "data_m v \<noteq> Some a" if "data_m w = Some a" for a
      using sep v w that by (auto simp: separate_def buffer_def)
    with hx w o2 f2 show ?thesis by (auto simp: holds_def split: option.splits)
  qed
  from vector_copy_post[OF h2 ne] obtain st' where
    c: "vector_copy this other st2 = Some st'" and r: "holds st' this xs" "holds st' other xs"
      "capacity st' this = Some (length xs)" "separate st' this other"
    by blast
  have "operator_assign this other st = Some (Inr this, st')"
    using ne v s1 s2 c
    by (auto simp: operator_assign_def vector_copy_def Let_def split: prod.splits if_splits
        bind_splits)
  with r show ?thesis by blast
qed

lemma holds_obj:
  assumes "holds st this xs"
  obtains v where "objs st this = Some v" "size_m v = length xs"
  using assms by (auto simp: holds_def split: option.splits)

lemma insert_at_throws:
  assumes "holds st this xs" "read_index ind st = Some n" "length xs < n"
  shows "insert_at this ind val st = Some (Inl index_out_of_bound, st)"
  using assms by (auto simp: insert_at_def elim!: holds_obj)

lemma erase_throws:
  assumes "holds st this xs" "read_index ind st = Some n" "length xs \<le> n"
  shows "erase this ind st = Some (Inl index_out_of_bound, st)"
  using assms by (auto simp: erase_def elim!: holds_obj)

lemma pop_back_throws:
  assumes "holds st this []"
  shows "pop_back this st = Some (Inl container_is_empty, st)"
  using assms by (auto simp: pop_back_def elim!: holds_obj)

lemma at_eq:
  assumes "holds st this xs"
  shows "at this i st = (if length xs \<le> i then Some (Inl index_out_of_bound, st)
                         else Some (Inr (buffer st this, int i), st))"
  using assms by (auto simp: at_def buffer_def elim!: holds_obj)

lemma holds_load_ptr:
  assumes "holds st this xs" "i < length xs"
  shows "load_ptr (buffer st this, int i) st = Some (xs ! i)"
proof -
  from assms(1) obtain v where v: "objs st this = Some v" by (rule holds_obj)
  with holds_load[OF v assms] show ?thesis by (simp add: load_ptr_def buffer_def)
qed

lemma mutate_post:
  assumes ha: "holds st this xs" and hb: "holds st other ys" and sep: "separate st this other"
  shows "\<exists>st' xs'. mutate this m st = Some st' \<and> holds st' this xs' \<and> holds st' other ys \<and>
           separate st' this other"
proof -
  from ha obtain v where v: "objs st this = Some v" by (rule holds_obj)
  have same: "\<exists>st' xs'. Some st = Some st' \<and> holds st' this xs' \<and> holds st' other ys \<and>
      separate st' this other"
    using ha hb sep by blast
  have step: "\<exists>st' xs'. Some st1 = Some st' \<and> holds st' this xs' \<and> holds st' other ys \<and>
      separate st' this other" if "holds st1 this zs" "frame st this st1" for st1 zs
    using that frame_holds[OF that(2) hb sep] by blast
  show ?thesis
  proof (cases m)
    case (Push_back x)
    from push_back_post[OF v ha, of "Outside x" x] step show ?thesis
      unfolding Push_back by auto
  next
    case Pop_back
    show ?thesis
    proof (cases "xs = []")
      case True
      with ha same show ?thesis unfolding Pop_back by (simp add: pop_back_throws)
    next
      case False
      from pop_back_post[OF v ha False] step show ?thesis unfolding Pop_back by auto
    qed
  next
    case (Insert_at i x)
    show ?thesis
    proof (cases "length xs < i")
      case True
      with ha same show ?thesis
        unfolding Insert_at by (simp add: insert_at_throws[where n = i])
    next
      case False
      then have "i \<le> length xs" by simp
      from insert_at_post[OF v ha this, of "Outside x" x "Index i"] step show ?thesis
        unfolding Insert_at by auto
    qed
  next
    case (Erase i)
    show ?thesis
    proof (cases "length xs \<le> i")
      case True
      with ha same show ?thesis
        unfolding Erase by (simp add: erase_throws[where n = i])
    next
      case False
      then have "i < length xs" by simp
      from erase_post[OF v ha this, of "Index i"] step show ?thesis
        unfolding Erase by auto
    qed
  next
    case Clear
    from clear_post[OF v ha] step show ?thesis unfolding Clear by auto
  next
    case (Write i x)
    show ?thesis
    proof (cases "length xs \<le> i")
      case True
      with ha same show ?thesis unfolding Write by (simp add: at_eq[OF ha])
    next
      case False
      then have "i < length xs" by simp
      from write_post[OF v ha this, of x] step False v show ?thesis
        unfolding Write by (auto simp: at_eq[OF ha] buffer_def)
    qed
  qed
qed

lemma mutates_post:
  assumes "holds st this xs" "holds st other ys" "separate st this other"
  shows "\<exists>st' xs'. mutates this ms st = Some st' \<and> holds st' this xs' \<and> holds st' other ys \<and>
           separate st' this other"
  using assms
proof (induction ms arbitrary: st xs)
  case Nil
  then show ?case by auto
next
  case (Cons m ms)
  from mutate_post[OF Cons.prems, of m] obtain st1 zs where
    s: "mutate this m st = Some st1" and h: "holds st1 this zs" "holds st1 other ys"
      "separate st1 this other" by blast
  from Cons.IH[OF h] s show ?case by auto
qed

lemma separate_sym:
  assumes "separate st this other" "holds st this xs" "holds st other ys"
  shows "separate st other this"
  using assms by (auto simp: separate_def)

lemma push_back_all_post:
  assumes "holds st this ys"
  shows "\<exists>st'. push_back_all this (map Outside xs) st = Some st' \<and> holds st' this (ys @ xs)"
  using assms
proof (induction xs arbitrary: st ys)
  case Nil
  then show ?case by simp
next
  case (Cons x xs)
  from Cons.prems obtain v where v: "objs st this = Some v" by (rule holds_obj)
  from push_back_post[OF v Cons.prems, of "Outside x" x] obtain st1 where
    s: "push_back this (Outside x) st = Some st1" and h: "holds st1 this (ys @ [x])" by auto
  from Cons.IH[OF h] s show ?case by auto
qed

subsection \<open>The example states\<close>

lemma holds_st_abc: "holds st_abc 0 [10, 20, 30]"
  by (simp add: holds_def st_abc_def block_at_def repr_def)

lemma holds_st_two: "holds st_two 0 [1, 2]" "holds st_two (Suc 0) [7]" "separate st_two 0 (Suc 0)"
  by (simp_all add: holds_def st_two_def block_at_def repr_def separate_def buffer_def)

lemmas run_simps =
  push_back_def vector_default_def empty_vector_def reallocate_def operator_new_def
  copy_loop.simps destroy_loop.simps operator_delete_def construct_def destroy_def
  set_obj_def block_at_def read_ref_def load_ptr_def load_def

lemma st_abc_reached:
  "push_back_all 0 [Outside 10, Outside 20, Outside 30] (vector_default 0 st_empty) = Some st_abc"
  by (simp add: run_simps st_empty_def st_abc_def eval_nat_numeral)

lemma st_027_reached:
  "push_back_all 0 [Outside 0, Outside 2, Outside 7] (vector_default 0 st_empty) = Some st_027"
  by (simp add: run_simps st_empty_def st_027_def eval_nat_numeral)

lemma st_701_reached:
  "push_back_all 0 [Outside 7, Outside 0, Outside 1] (vector_default 0 st_empty) = Some st_701"
  by (simp add: run_simps st_empty_def st_701_def eval_nat_numeral)

lemma st_two_reached:
  "do {
     st1 \<leftarrow> push_back_all 0 [Outside 1, Outside 2] (vector_default 0 st_empty);
     push_back 1 (Outside 7) (vector_default 1 st1)
   } = Some st_two"
  by (simp add: run_simps st_empty_def st_two_def eval_nat_numeral)

subsection \<open>Auxiliary facts for the claims\<close>

lemma growth_max: "(if c = (0::nat) then 1 else c * 2) = max 1 (2 * c)"
  by (cases c) simp_all

lemma take_drop_insert:
  "ind \<le> length xs \<Longrightarrow>
   take ind (take ind xs @ x # drop ind xs) @ drop (Suc ind) (take ind xs @ x # drop ind xs) = xs"
  by (simp add: min_def)

lemma subscript_eq_at:
  "subscript this i st = at this i st" "at_const this i st = at this i st"
  "subscript_const this i st = at this i st"
  by (simp_all add: subscript_def at_def at_const_def subscript_const_def)

lemma front_eq:
  assumes "holds st this xs"
  shows "front this st = (if xs = [] then Some (Inl container_is_empty, st)
                          else Some (Inr (buffer st this, 0), st))"
  using assms by (auto simp: front_def buffer_def elim!: holds_obj)

lemma back_vec_eq:
  assumes "holds st this xs"
  shows "back_vec this st = (if xs = [] then Some (Inl container_is_empty, st)
                             else Some (Inr (buffer st this, int (length xs - 1)), st))"
  using assms by (auto simp: back_vec_def buffer_def elim!: holds_obj)

lemma sint_int32:
  "- 2147483648 \<le> d \<Longrightarrow> d < 2147483648 \<Longrightarrow> sint (word_of_int d :: 32 word) = d"
  by (simp add: sint_sbintrunc' signed_take_bit_int_eq_self)

lemma deep_copyI:
  assumes "holds st this xs" "holds st other xs" "separate st this other"
    "capacity st this = Some (length xs)"
  shows "deep_copy st this other xs"
proof -
  have "\<exists>st'. mutates this ms st = Some st' \<and> elements st' other = Some xs" for ms
    using mutates_post[OF assms(1,2,3), of ms] holds_elements by blast
  moreover have "\<exists>st'. mutates other ms st = Some st' \<and> elements st' this = Some xs" for ms
    using mutates_post[OF assms(2,1) separate_sym[OF assms(3,1,2)], of ms] holds_elements
    by blast
  ultimately show ?thesis
    using assms(4) holds_elements[OF assms(1)] holds_elements[OF assms(2)]
    by (simp add: deep_copy_def)
qed

subsection \<open>Calls with arguments outside the buffer\<close>

lemma index_frame:
  assumes "frame st this st'" "objs st this = Some v" "read_index ind st = Some n"
    "index_free ind st this"
  shows "read_index ind st' = Some n \<and> index_free ind st' this"
proof (cases ind)
  case (Index m)
  with assms(3) show ?thesis by simp
next
  case (Element p f)
  from assms(3)[unfolded Element] obtain a b x where a: "fst p = Some a"
    and b: "block_at st a = Some b" "0 \<le> snd p" "nat (snd p) < length b"
      "b ! nat (snd p) = Some x" "f x = n"
    by (rule read_index_ElementD)
  from b(1) have lt: "a < length (mem st)" by (rule block_at_SomeD)
  from assms(4) a have ne: "buffer st this \<noteq> Some a"
    by (auto simp: Element index_free_def)
  with assms(1) lt have "block_at st' a = block_at st a" by (simp add: frame_def)
  with b a have "read_index ind st' = Some n"
    by (simp add: Element read_index_def load_ptr_def load_def)
  moreover from assms(1) ne lt have "buffer st' this \<noteq> Some a"
    by (auto simp: frame_def)
  with a have "index_free ind st' this" by (simp add: Element index_free_def)
  ultimately show ?thesis ..
qed

text \<open>
  What C1 states holds for every call of \<^verbatim>\<open>insert\<close> whose index does not refer into
  the container's own buffer and whose argument does not either, or that reallocates.
\<close>

lemma insert_at_correct:
  assumes "holds st this xs" "read_ref val st = Some x"
    "capacity st this = Some (length xs) \<or> alias_free val st this"
    "read_index ind st = Some n" "index_free ind st this"
  shows "if length xs < n
         then insert_at this ind val st = Some (Inl index_out_of_bound, st)
         else (\<exists>it st'. insert_at this ind val st = Some (Inr it, st') \<and>
                 holds st' this (take n xs @ x # drop n xs) \<and>
                 elements st' this = Some (take n xs @ x # drop n xs) \<and>
                 size_vec this st' = Some (length xs + 1) \<and>
                 capacity st' this =
                   (if capacity st this = Some (length xs) then Some (max 1 (2 * length xs))
                    else capacity st this) \<and>
                 vec_m it = Some this \<and> ptr_m it = (buffer st' this, int n) \<and>
                 iterator_deref it st' = Some x)"
proof (cases "length xs < n")
  case True
  with assms show ?thesis by (simp add: insert_at_throws)
next
  case False
  then have n: "n \<le> length xs" by simp
  let ?ys = "take n xs @ x # drop n xs"
  from assms(1) obtain v where v: "objs st this = Some v" by (rule holds_obj)
  from assms(1) v have le: "length xs \<le> capacity_m v" by (auto simp: holds_def)
  from assms(3) v have al: "capacity_m v \<le> length xs \<or> alias_free val st this"
    by (auto simp: capacity_def)
  from insert_at_post[OF v assms(1) n assms(2,4,5)] al obtain st' v' where
    c: "insert_at this ind val st = Some (Inr (Iterator (data_m v', int n) (Some this)), st')"
    and v': "objs st' this = Some v'"
    and cap: "capacity_m v' = (if capacity_m v \<le> length xs
        then (if capacity_m v = 0 then 1 else capacity_m v * 2) else capacity_m v)"
    and h: "holds st' this ?ys"
    by blast
  have "capacity st' this =
      (if capacity st this = Some (length xs) then Some (max 1 (2 * length xs))
       else capacity st this)"
    using v v' cap[unfolded growth_max] le by (auto simp: capacity_def)
  moreover have "iterator_deref (Iterator (data_m v', int n) (Some this)) st' = Some x"
    using holds_load_ptr[OF h, of n] n v'
    by (simp add: iterator_deref_def Iterator_def buffer_def nth_append)
  moreover have "size_vec this st' = Some (length xs + 1)"
    using holds_size[OF h] n by simp
  ultimately show ?thesis
    using False c h holds_elements[OF h] v'
    by (simp add: Iterator_def buffer_def)
qed

text \<open>
  What C2 states holds for every call of \<^verbatim>\<open>erase\<close> whose index does not refer into
  the container's own buffer.
\<close>

lemma erase_correct:
  assumes "holds st this xs" "read_index ind st = Some n" "index_free ind st this"
  shows "if length xs \<le> n
         then erase this ind st = Some (Inl index_out_of_bound, st)
         else (\<exists>it st'. erase this ind st = Some (Inr it, st') \<and>
                 holds st' this (take n xs @ drop (Suc n) xs) \<and>
                 elements st' this = Some (take n xs @ drop (Suc n) xs) \<and>
                 size_vec this st' = Some (length xs - 1) \<and>
                 capacity st' this = capacity st this \<and>
                 vec_m it = Some this \<and> ptr_m it = (buffer st' this, int n) \<and>
                 (if Suc n < length xs then iterator_deref it st' = Some (xs ! Suc n)
                  else end_it this st' = Some it))"
proof (cases "length xs \<le> n")
  case True
  with assms show ?thesis by (simp add: erase_throws)
next
  case False
  then have n: "n < length xs" by simp
  let ?ys = "take n xs @ drop (Suc n) xs"
  from assms(1) obtain v where v: "objs st this = Some v" by (rule holds_obj)
  let ?it = "Iterator (data_m v, int n) (Some this)"
  from erase_post[OF v assms(1) n assms(2,3)] obtain st' where
    c: "erase this ind st = Some (Inr ?it, st')"
    and v': "objs st' this = Some (v\<lparr>size_m := length xs - 1\<rparr>)"
    and h: "holds st' this ?ys"
    by blast
  have len: "length ?ys = length xs - 1" using n by simp
  have b: "buffer st' this = data_m v" using v' by (simp add: buffer_def)
  have "iterator_deref ?it st' = Some (xs ! Suc n)" if "Suc n < length xs"
  proof -
    from that have "n < length ?ys" by simp
    from holds_load_ptr[OF h this] b that show ?thesis
      by (simp add: iterator_deref_def Iterator_def nth_append min_def)
  qed
  moreover have "end_it this st' = Some ?it" if "\<not> Suc n < length xs"
  proof -
    from that n have "length xs - 1 = n" by simp
    with v' show ?thesis by (simp add: end_it_def)
  qed
  moreover have "capacity st' this = capacity st this"
    using v v' by (simp add: capacity_def)
  moreover have "size_vec this st' = Some (length xs - 1)"
    using holds_size[OF h] len by simp
  ultimately show ?thesis
    using False c h holds_elements[OF h] b
    by (simp add: Iterator_def)
qed

text \<open>
  What C4 states holds for every index that does not refer into the container's own
  buffer, whatever live object the argument refers to.
\<close>

lemma insert_erase_roundtrip:
  assumes "holds st this xs" "n \<le> length xs" "read_ref val st = Some x"
    "read_index ind st = Some n" "index_free ind st this"
  shows "\<exists>it st1 it' st2. insert_at this ind val st = Some (Inr it, st1) \<and>
           erase this ind st1 = Some (Inr it', st2) \<and>
           holds st2 this xs \<and> elements st2 this = elements st this \<and>
           size_vec this st2 = size_vec this st"
proof -
  from assms(1) obtain v where v: "objs st this = Some v" by (rule holds_obj)
  from insert_at_post[OF v assms] obtain st1 v1 y where
    c1: "insert_at this ind val st = Some (Inr (Iterator (data_m v1, int n) (Some this)), st1)"
    and v1: "objs st1 this = Some v1"
    and h1: "holds st1 this (take n xs @ y # drop n xs)"
    and f1: "frame st this st1"
    by blast
  let ?ys = "take n xs @ y # drop n xs"
  have "n < length ?ys" using assms(2) by simp
  moreover from index_frame[OF f1 v assms(4,5)]
  have "read_index ind st1 = Some n" "index_free ind st1 this" by simp_all
  ultimately obtain st2 where
    c2: "erase this ind st1 = Some (Inr (Iterator (data_m v1, int n) (Some this)), st2)"
    and h2: "holds st2 this (take n ?ys @ drop (Suc n) ?ys)"
    using erase_post[OF v1 h1, of n ind] by blast
  from h2 have h2': "holds st2 this xs" by (simp only: take_drop_insert[OF assms(2)])
  show ?thesis
    using c1 c2 h2' holds_elements[OF h2'] holds_elements[OF assms(1)]
      holds_size[OF h2'] holds_size[OF assms(1)]
    by simp
qed

text \<open>
  What C3 states holds for every sequence of calls of \<^verbatim>\<open>push_back\<close> whose arguments are
  outside the container.
\<close>

lemma push_back_all_correct:
  "\<exists>st'. push_back_all this (map Outside xs) (vector_default this st) = Some st' \<and>
     size_vec this st' = Some (length xs) \<and>
     (\<forall>i<length xs. \<exists>p. at this i st' = Some (Inr p, st') \<and>
        subscript this i st' = Some (Inr p, st') \<and> load_ptr p st' = Some (xs ! i))"
proof -
  have "holds (vector_default this st) this []"
    by (simp add: vector_default_def holds_empty_vector)
  from push_back_all_post[OF this, of xs] obtain st' where
    c: "push_back_all this (map Outside xs) (vector_default this st) = Some st'"
    and h: "holds st' this xs"
    by auto
  have "at this i st' = Some (Inr (buffer st' this, int i), st') \<and>
        subscript this i st' = Some (Inr (buffer st' this, int i), st') \<and>
        load_ptr (buffer st' this, int i) st' = Some (xs ! i)" if "i < length xs" for i
    using that at_eq[OF h, of i] holds_load_ptr[OF h that]
    by (simp add: subscript_def at_def)
  with c holds_size[OF h] show ?thesis by blast
qed


section \<open>The claims\<close>

text \<open>
  C1 says that \<^verbatim>\<open>insert(index, v)\<close> places a copy of \<open>v\<close> at slot \<open>index\<close> and returns
  a cursor to it. The code does not when the argument refers to an element of the
  container behind \<open>index\<close> and no reallocation takes place: on the container 10, 20, 30
  of capacity 4, as three calls of \<^verbatim>\<open>push_back\<close> leave it, the call
  \<^verbatim>\<open>v.insert(0, v[1])\<close> reads its argument, 20, to construct slot
  3, shifts slots 0 to 2 one slot right, and reads its argument again for the assignment
  to slot 0; the argument is slot 1, which holds 10 by then. The container ends as
  10, 10, 20, 30 and the cursor returned dereferences to 10.
\<close>

theorem insert_at_aliased_argument:
  "push_back_all 0 [Outside 10, Outside 20, Outside 30] (vector_default 0 st_empty) = Some st_abc \<and>
   elements st_abc 0 = Some [10, 20, 30] \<and> capacity st_abc 0 = Some 4 \<and>
   at 0 1 st_abc = Some (Inr (Some 2, 1), st_abc) \<and>
   read_ref (Inside (Some 2, 1)) st_abc = Some 20 \<and>
   (\<exists>it st'. insert_at 0 (Index 0) (Inside (Some 2, 1)) st_abc = Some (Inr it, st') \<and>
      elements st' 0 = Some [10, 10, 20, 30] \<and> iterator_deref it st' = Some 10)"
proof -
  have "at 0 1 st_abc = Some (Inr (Some 2, 1), st_abc)"
    by (simp add: at_def st_abc_def)
  moreover have "read_ref (Inside (Some 2, 1)) st_abc = Some 20"
    by (simp add: read_ref_def load_ptr_def load_def block_at_def st_abc_def)
  moreover have "\<exists>it st'. insert_at 0 (Index 0) (Inside (Some 2, 1)) st_abc = Some (Inr it, st') \<and>
      elements st' 0 = Some [10, 10, 20, 30] \<and> iterator_deref it st' = Some 10"
    by (simp add: insert_at_def st_abc_def read_ref_def load_ptr_def load_def block_at_def
        construct_def shift_right.simps assign_def set_obj_def elements_def iterator_deref_def
        Iterator_def upt_rec)
  moreover have "capacity st_abc 0 = Some 4"
    by (simp add: capacity_def st_abc_def)
  ultimately show ?thesis
    using st_abc_reached holds_elements[OF holds_st_abc] by blast
qed

text \<open>
  C2 says that \<^verbatim>\<open>erase(index)\<close> removes the element at slot \<open>index\<close> and returns a cursor
  to the element now at that slot. The code does not when the index, a parameter
  \<^verbatim>\<open>const size_t &\<close>, is bound to an element of the container that the shift changes: on
  the \<^verbatim>\<open>vector<size_t>\<close> 0, 2, 7, as three calls of \<^verbatim>\<open>push_back\<close> leave it, the call
  \<^verbatim>\<open>v.erase(v[0])\<close> reads the index, 0, for the check and for the start of the loop,
  shifts slots 1 and 2 one slot left, and reads the index again for the cursor it returns;
  the index is slot 0, which holds 2 by then. The container ends as 2, 7, as claimed, but
  the cursor returned stands at slot 2: it is the end cursor, at no element, and not the
  cursor to the element now at slot 0.
\<close>

theorem erase_aliased_index:
  "push_back_all 0 [Outside 0, Outside 2, Outside 7] (vector_default 0 st_empty) = Some st_027 \<and>
   elements st_027 0 = Some [0, 2, 7] \<and>
   at 0 0 st_027 = Some (Inr (Some 2, 0), st_027) \<and>
   read_index (Element (Some 2, 0) (\<lambda>x. x)) st_027 = Some 0 \<and>
   (\<exists>it st'. erase 0 (Element (Some 2, 0) (\<lambda>x. x)) st_027 = Some (Inr it, st') \<and>
      elements st' 0 = Some [2, 7] \<and> size_vec 0 st' = Some 2 \<and>
      ptr_m it = (buffer st' 0, 2) \<and> end_it 0 st' = Some it \<and>
      iterator_deref it st' = None)"
proof -
  have "elements st_027 0 = Some [0, 2, 7]"
    by (simp add: elements_def st_027_def load_def block_at_def upt_rec)
  moreover have "at 0 0 st_027 = Some (Inr (Some 2, 0), st_027)"
    by (simp add: at_def st_027_def)
  moreover have "read_index (Element (Some 2, 0) (\<lambda>x. x)) st_027 = Some 0"
    by (simp add: read_index_def load_ptr_def load_def block_at_def st_027_def)
  moreover have "\<exists>it st'. erase 0 (Element (Some 2, 0) (\<lambda>x. x)) st_027 = Some (Inr it, st') \<and>
      elements st' 0 = Some [2, 7] \<and> size_vec 0 st' = Some 2 \<and>
      ptr_m it = (buffer st' 0, 2) \<and> end_it 0 st' = Some it \<and>
      iterator_deref it st' = None"
    by (simp add: erase_def st_027_def read_index_def load_ptr_def load_def block_at_def
        shift_left.simps assign_def destroy_def set_obj_def elements_def size_vec_def
        buffer_def end_it_def iterator_deref_def Iterator_def upt_rec)
  ultimately show ?thesis
    using st_027_reached by blast
qed

text \<open>
  C3 says that after any sequence of \<^verbatim>\<open>push_back\<close> calls on the empty container the
  size is the number of calls and element \<open>i\<close> is the value of the \<open>i\<close>-th call. The code
  does not achieve this when a call that reallocates is given an element of the container
  itself: after \<^verbatim>\<open>v.push_back(1)\<close> the container is full, and \<^verbatim>\<open>v.push_back(v[0])\<close>
  runs \<^verbatim>\<open>reallocate\<close>, which destroys the elements and releases the buffer, before it
  reads its argument, an object of the released buffer. The read has undefined behaviour.
\<close>

theorem push_back_aliased_argument:
  "\<exists>st1. push_back 0 (Outside 1) (vector_default 0 st_empty) = Some st1 \<and>
     holds st1 0 [1] \<and> at 0 0 st1 = Some (Inr (Some 0, 0), st1) \<and>
     read_ref (Inside (Some 0, 0)) st1 = Some 1 \<and>
     push_back 0 (Inside (Some 0, 0)) st1 = None \<and>
     push_back_all 0 [Outside 1, Inside (Some 0, 0)] (vector_default 0 st_empty) = None"
  by (simp add: run_simps st_empty_def holds_def repr_def at_def)

text \<open>
  C4 says that \<^verbatim>\<open>insert(i, v)\<close> and then \<^verbatim>\<open>erase(i)\<close> leave the element sequence as it
  was. The code does not when the index of \<^verbatim>\<open>insert\<close>, a parameter \<^verbatim>\<open>const size_t &\<close>, is
  bound to an element of the container that the shift changes: on the \<^verbatim>\<open>vector<size_t>\<close>
  7, 0, 1 of capacity 4, as three calls of \<^verbatim>\<open>push_back\<close> leave it, the call
  \<^verbatim>\<open>v.insert(v[2], 9)\<close> has the index 1. It constructs slot 3 and tests \<^verbatim>\<open>i > ind\<close>
  before each step of the shift, reading the index, slot 2, each time: 1 before the
  first two steps and 0, the value shifted into slot 2, from then on. So the shift runs down to
  slot 0 and the value 9 is assigned to slot 0: the container is 9, 7, 0, 1 and not
  7, 9, 0, 1. \<^verbatim>\<open>v.erase(1)\<close> then leaves 9, 0, 1, not 7, 0, 1.
\<close>

theorem insert_erase_aliased_index:
  "push_back_all 0 [Outside 7, Outside 0, Outside 1] (vector_default 0 st_empty) = Some st_701 \<and>
   elements st_701 0 = Some [7, 0, 1] \<and> capacity st_701 0 = Some 4 \<and>
   at 0 2 st_701 = Some (Inr (Some 2, 2), st_701) \<and>
   read_index (Element (Some 2, 2) (\<lambda>x. x)) st_701 = Some 1 \<and>
   (\<exists>it st1 it' st2.
      insert_at 0 (Element (Some 2, 2) (\<lambda>x. x)) (Outside 9) st_701 = Some (Inr it, st1) \<and>
      elements st1 0 = Some [9, 7, 0, 1] \<and>
      erase 0 (Index 1) st1 = Some (Inr it', st2) \<and>
      elements st2 0 = Some [9, 0, 1] \<and> size_vec 0 st2 = Some 3)"
proof -
  have "elements st_701 0 = Some [7, 0, 1]"
    by (simp add: elements_def st_701_def load_def block_at_def upt_rec)
  moreover have "capacity st_701 0 = Some 4"
    by (simp add: capacity_def st_701_def)
  moreover have "at 0 2 st_701 = Some (Inr (Some 2, 2), st_701)"
    by (simp add: at_def st_701_def)
  moreover have "read_index (Element (Some 2, 2) (\<lambda>x. x)) st_701 = Some 1"
    by (simp add: read_index_def load_ptr_def load_def block_at_def st_701_def)
  moreover have "\<exists>it st1 it' st2.
      insert_at 0 (Element (Some 2, 2) (\<lambda>x. x)) (Outside 9) st_701 = Some (Inr it, st1) \<and>
      elements st1 0 = Some [9, 7, 0, 1] \<and>
      erase 0 (Index 1) st1 = Some (Inr it', st2) \<and>
      elements st2 0 = Some [9, 0, 1] \<and> size_vec 0 st2 = Some 3"
    by (simp add: insert_at_def erase_def st_701_def read_index_def read_ref_def load_ptr_def
        load_def block_at_def construct_def shift_right.simps shift_left.simps assign_def
        destroy_def set_obj_def elements_def size_vec_def Iterator_def upt_rec)
  ultimately show ?thesis
    using st_701_reached by blast
qed

text \<open>
  C5. On a container that holds \<open>xs\<close>, the four indexed accesses (\<^verbatim>\<open>at\<close> and
  \<^verbatim>\<open>operator[]\<close>, each with its \<^verbatim>\<open>const\<close> overload) behave alike: they throw
  \<^verbatim>\<open>index_out_of_bound\<close> if and only if the index is not below the size, whatever the
  size, and then the state is as it was; otherwise they return, without a change of the
  state, the reference to slot \<open>i\<close> of the buffer, which reads as element \<open>i\<close>.
\<close>

theorem indexed_access_correct:
  assumes "holds st this xs"
  shows "at this i st =
           (if length xs \<le> i then Some (Inl index_out_of_bound, st)
            else Some (Inr (buffer st this, int i), st)) \<and>
         at_const this i st = at this i st \<and> subscript this i st = at this i st \<and>
         subscript_const this i st = at this i st \<and>
         ((\<exists>st'. at this i st = Some (Inl index_out_of_bound, st')) \<longleftrightarrow> length xs \<le> i) \<and>
         (i < length xs \<longrightarrow> load_ptr (buffer st this, int i) st = Some (xs ! i))"
  using at_eq[OF assms, of i] holds_load_ptr[OF assms, of i]
  by (simp add: subscript_eq_at)

theorem indexed_access_correct_witness:
  "holds st_abc 0 [10, 20, 30] \<and>
   at 0 2 st_abc = Some (Inr (buffer st_abc 0, 2), st_abc) \<and>
   load_ptr (buffer st_abc 0, 2) st_abc = Some 30 \<and>
   at 0 3 st_abc = Some (Inl index_out_of_bound, st_abc) \<and>
   subscript 0 3 st_abc = Some (Inl index_out_of_bound, st_abc)"
  using indexed_access_correct[OF holds_st_abc, of 2]
    indexed_access_correct[OF holds_st_abc, of 3] holds_st_abc
  by simp

text \<open>
  C6. On a container that holds \<open>xs\<close>, \<^verbatim>\<open>front\<close>, \<^verbatim>\<open>back\<close> and \<^verbatim>\<open>pop_back\<close> throw
  \<^verbatim>\<open>container_is_empty\<close> if and only if the container is empty, and then the state is
  as it was. Otherwise \<^verbatim>\<open>front\<close> returns the reference to slot 0, which reads as the
  first element, \<^verbatim>\<open>back\<close> the reference to slot \<open>size - 1\<close>, which reads as the last,
  both without a change of the state, and \<^verbatim>\<open>pop_back\<close> returns and leaves the container
  with all elements but the last, the size one less and the capacity unchanged.
\<close>

theorem front_back_pop_back_correct:
  assumes "holds st this xs"
  shows "(if xs = []
          then front this st = Some (Inl container_is_empty, st) \<and>
               back_vec this st = Some (Inl container_is_empty, st) \<and>
               pop_back this st = Some (Inl container_is_empty, st)
          else front this st = Some (Inr (buffer st this, 0), st) \<and>
               load_ptr (buffer st this, 0) st = Some (xs ! 0) \<and>
               back_vec this st = Some (Inr (buffer st this, int (length xs - 1)), st) \<and>
               load_ptr (buffer st this, int (length xs - 1)) st = Some (xs ! (length xs - 1)) \<and>
               (\<exists>st'. pop_back this st = Some (Inr (), st') \<and>
                  holds st' this (butlast xs) \<and> elements st' this = Some (butlast xs) \<and>
                  size_vec this st' = Some (length xs - 1) \<and>
                  capacity st' this = capacity st this)) \<and>
         ((\<exists>st'. front this st = Some (Inl container_is_empty, st')) \<longleftrightarrow> xs = []) \<and>
         ((\<exists>st'. back_vec this st = Some (Inl container_is_empty, st')) \<longleftrightarrow> xs = []) \<and>
         ((\<exists>st'. pop_back this st = Some (Inl container_is_empty, st')) \<longleftrightarrow> xs = [])"
proof (cases "xs = []")
  case True
  with assms show ?thesis
    by (simp add: front_eq[OF assms] back_vec_eq[OF assms] pop_back_throws)
next
  case False
  from assms obtain v where v: "objs st this = Some v" by (rule holds_obj)
  from pop_back_post[OF v assms False] obtain st' where
    c: "pop_back this st = Some (Inr (), st')"
    and v': "objs st' this = Some (v\<lparr>size_m := length xs - 1\<rparr>)"
    and h: "holds st' this (butlast xs)" by blast
  have cap: "capacity st' this = capacity st this" using v v' by (simp add: capacity_def)
  have l: "length xs - 1 < length xs" "0 < length xs" using False by auto
  show ?thesis
    using False c h cap holds_elements[OF h] holds_size[OF h]
      holds_load_ptr[OF assms l(1)] holds_load_ptr[OF assms l(2)]
    by (simp add: front_eq[OF assms] back_vec_eq[OF assms])
qed

theorem front_back_pop_back_correct_witness:
  "holds st_abc 0 [10, 20, 30] \<and>
   front 0 st_abc = Some (Inr (buffer st_abc 0, 0), st_abc) \<and>
   load_ptr (buffer st_abc 0, 0) st_abc = Some 10 \<and>
   back_vec 0 st_abc = Some (Inr (buffer st_abc 0, 2), st_abc) \<and>
   load_ptr (buffer st_abc 0, 2) st_abc = Some 30 \<and>
   (\<exists>st'. pop_back 0 st_abc = Some (Inr (), st') \<and> holds st' 0 [10, 20] \<and>
      size_vec 0 st' = Some 2 \<and> capacity st' 0 = capacity st_abc 0)"
  using front_back_pop_back_correct[OF holds_st_abc] holds_st_abc
  by (auto simp: eval_nat_numeral)




text \<open>
  C8, as stated, fails: the difference of two cursors has type \<^verbatim>\<open>int\<close>, so on the
  container that \<open>2 ^ 31\<close> calls of \<^verbatim>\<open>push_back\<close> leave, \<^verbatim>\<open>end() - begin()\<close> is
  \<open>- 2 ^ 31\<close> and not the size.
\<close>

theorem cursor_difference_wraps:
  "\<exists>st. push_back_all 0 (map Outside (replicate int_limit 0)) (vector_default 0 st_empty) = Some st \<and>
     size_vec 0 st = Some 2147483648 \<and>
     (\<exists>e b w. end_it 0 st = Some e \<and> begin_it 0 st = Some b \<and>
        iterator_diff e b = Some (Inr w) \<and> sint w = - 2147483648)"
proof -
  have "holds (vector_default 0 st_empty) 0 []"
    by (simp add: vector_default_def holds_empty_vector)
  from push_back_all_post[OF this, of "replicate int_limit 0"] obtain st where
    c: "push_back_all 0 (map Outside (replicate int_limit 0)) (vector_default 0 st_empty) = Some st"
    and h: "holds st 0 (replicate int_limit 0)"
    by auto
  from h obtain v where v: "objs st 0 = Some v" and sz: "size_m v = int_limit"
    by (auto elim!: holds_obj)
  have "size_vec 0 st = Some 2147483648"
    using v sz by (simp add: size_vec_def int_limit_def)
  moreover have "sint (word_of_int (int int_limit) :: 32 word) = - 2147483648"
    by (simp add: int_limit_def)
  then have "\<exists>e b w. end_it 0 st = Some e \<and> begin_it 0 st = Some b \<and>
      iterator_diff e b = Some (Inr w) \<and> sint w = - 2147483648"
    using v sz by (simp add: end_it_def begin_it_def iterator_diff_def ptr_diff_def Iterator_def)
  ultimately show ?thesis using c by blast
qed

text \<open>
  C8, amended. The subtraction of two cursors, mutable or read-only, throws
  \<^verbatim>\<open>invalid_iterator\<close> if and only if their origins differ. For two cursors of one
  origin at positions of one buffer it returns the slot distance converted to \<^verbatim>\<open>int\<close>,
  which is the signed distance whenever that lies between \<open>- 2 ^ 31\<close> and \<open>2 ^ 31 - 1\<close>.
  On every container of fewer than \<open>2 ^ 31\<close> elements \<^verbatim>\<open>end() - begin()\<close> and
  \<^verbatim>\<open>cend() - cbegin()\<close> equal \<^verbatim>\<open>size()\<close>.
\<close>

theorem cursor_difference:
  "((iterator_diff a b = Some (Inl invalid_iterator)) \<longleftrightarrow> vec_m a \<noteq> vec_m b) \<and>
   ((const_iterator_diff ca cb = Some (Inl invalid_iterator)) \<longleftrightarrow>
      const_vec_m ca \<noteq> const_vec_m cb) \<and>
   (vec_m a = vec_m b \<and> fst (ptr_m a) = fst (ptr_m b) \<longrightarrow>
      iterator_diff a b = Some (Inr (word_of_int (snd (ptr_m a) - snd (ptr_m b)))) \<and>
      (- 2147483648 \<le> snd (ptr_m a) - snd (ptr_m b) \<and>
       snd (ptr_m a) - snd (ptr_m b) < 2147483648 \<longrightarrow>
         (\<exists>w. iterator_diff a b = Some (Inr w) \<and> sint w = snd (ptr_m a) - snd (ptr_m b)))) \<and>
   (const_vec_m ca = const_vec_m cb \<and> fst (const_ptr_m ca) = fst (const_ptr_m cb) \<longrightarrow>
      const_iterator_diff ca cb =
        Some (Inr (word_of_int (snd (const_ptr_m ca) - snd (const_ptr_m cb)))) \<and>
      (- 2147483648 \<le> snd (const_ptr_m ca) - snd (const_ptr_m cb) \<and>
       snd (const_ptr_m ca) - snd (const_ptr_m cb) < 2147483648 \<longrightarrow>
         (\<exists>w. const_iterator_diff ca cb = Some (Inr w) \<and>
            sint w = snd (const_ptr_m ca) - snd (const_ptr_m cb)))) \<and>
   (objs st this = Some v \<and> size_m v < 2147483648 \<longrightarrow>
      size_vec this st = Some (size_m v) \<and>
      (\<exists>e b w. end_it this st = Some e \<and> begin_it this st = Some b \<and>
         iterator_diff e b = Some (Inr w) \<and> sint w = int (size_m v)) \<and>
      (\<exists>e b w. end_const this st = Some e \<and> begin_const this st = Some b \<and>
         const_iterator_diff e b = Some (Inr w) \<and> sint w = int (size_m v)) \<and>
      (\<exists>e b w. cend this st = Some e \<and> cbegin this st = Some b \<and>
         const_iterator_diff e b = Some (Inr w) \<and> sint w = int (size_m v)))"
proof -
  have 1: "(iterator_diff a b = Some (Inl invalid_iterator)) \<longleftrightarrow> vec_m a \<noteq> vec_m b"
    by (auto simp: iterator_diff_def ptr_diff_def)
  have 2: "(const_iterator_diff ca cb = Some (Inl invalid_iterator)) \<longleftrightarrow>
      const_vec_m ca \<noteq> const_vec_m cb"
    by (auto simp: const_iterator_diff_def ptr_diff_def)
  have 3: "iterator_diff a b = Some (Inr (word_of_int (snd (ptr_m a) - snd (ptr_m b)))) \<and>
      (- 2147483648 \<le> snd (ptr_m a) - snd (ptr_m b) \<and>
       snd (ptr_m a) - snd (ptr_m b) < 2147483648 \<longrightarrow>
         (\<exists>w. iterator_diff a b = Some (Inr w) \<and> sint w = snd (ptr_m a) - snd (ptr_m b)))"
    if "vec_m a = vec_m b \<and> fst (ptr_m a) = fst (ptr_m b)"
  proof -
    have eq: "iterator_diff a b = Some (Inr (word_of_int (snd (ptr_m a) - snd (ptr_m b))))"
      using that by (simp add: iterator_diff_def ptr_diff_def)
    with sint_int32[of "snd (ptr_m a) - snd (ptr_m b)"] show ?thesis by blast
  qed
  have 4: "const_iterator_diff ca cb =
        Some (Inr (word_of_int (snd (const_ptr_m ca) - snd (const_ptr_m cb)))) \<and>
      (- 2147483648 \<le> snd (const_ptr_m ca) - snd (const_ptr_m cb) \<and>
       snd (const_ptr_m ca) - snd (const_ptr_m cb) < 2147483648 \<longrightarrow>
         (\<exists>w. const_iterator_diff ca cb = Some (Inr w) \<and>
            sint w = snd (const_ptr_m ca) - snd (const_ptr_m cb)))"
    if "const_vec_m ca = const_vec_m cb \<and> fst (const_ptr_m ca) = fst (const_ptr_m cb)"
  proof -
    have eq: "const_iterator_diff ca cb =
        Some (Inr (word_of_int (snd (const_ptr_m ca) - snd (const_ptr_m cb))))"
      using that by (simp add: const_iterator_diff_def ptr_diff_def)
    with sint_int32[of "snd (const_ptr_m ca) - snd (const_ptr_m cb)"] show ?thesis by blast
  qed
  have 5: "size_vec this st = Some (size_m v) \<and>
      (\<exists>e b w. end_it this st = Some e \<and> begin_it this st = Some b \<and>
         iterator_diff e b = Some (Inr w) \<and> sint w = int (size_m v)) \<and>
      (\<exists>e b w. end_const this st = Some e \<and> begin_const this st = Some b \<and>
         const_iterator_diff e b = Some (Inr w) \<and> sint w = int (size_m v)) \<and>
      (\<exists>e b w. cend this st = Some e \<and> cbegin this st = Some b \<and>
         const_iterator_diff e b = Some (Inr w) \<and> sint w = int (size_m v))"
    if "objs st this = Some v \<and> size_m v < 2147483648"
  proof -
    from that have "sint (word_of_int (int (size_m v)) :: 32 word) = int (size_m v)"
      by (intro sint_int32) auto
    with that show ?thesis
      by (simp add: size_vec_def end_it_def begin_it_def end_const_def begin_const_def cend_def
          cbegin_def iterator_diff_def const_iterator_diff_def ptr_diff_def Iterator_def
          Const_iterator_def)
  qed
  from 1 2 3 4 5 show ?thesis by blast
qed

theorem cursor_difference_witness:
  "objs st_abc 0 = Some \<lparr>data_m = Some 2, size_m = 3, capacity_m = 4\<rparr> \<and>
   size_vec 0 st_abc = Some 3 \<and>
   (\<exists>e b w. end_it 0 st_abc = Some e \<and> begin_it 0 st_abc = Some b \<and>
      iterator_diff e b = Some (Inr w) \<and> sint w = 3 \<and>
      iterator_diff b e = Some (Inr (word_of_int (- 3)))) \<and>
   (\<exists>e b w. cend 0 st_abc = Some e \<and> cbegin 0 st_abc = Some b \<and>
      const_iterator_diff e b = Some (Inr w) \<and> sint w = 3)"
proof -
  let ?v = "\<lparr>data_m = Some 2, size_m = 3, capacity_m = 4\<rparr>"
  let ?b = "Iterator (Some 2, 0) (Some 0)" and ?e = "Iterator (Some 2, 3) (Some 0)"
  have o: "objs st_abc 0 = Some ?v" by (simp add: st_abc_def)
  have be: "begin_it 0 st_abc = Some ?b" "end_it 0 st_abc = Some ?e"
    by (simp_all add: begin_it_def end_it_def st_abc_def)
  from cursor_difference[of ?b ?e "Const_iterator (None, 0) None" "Const_iterator (None, 0) None"
      st_abc 0 ?v] o be
  show ?thesis by (auto simp: Iterator_def)
qed

text \<open>
  C9. From a container at \<open>other\<close> that holds \<open>xs\<close>, the copy constructor (for a new
  object) and the copy assignment to another container (one that holds some \<open>ys\<close> in a
  buffer of its own) return and leave a deep copy: both containers have the elements
  \<open>xs\<close>, the capacity of the copy is the number of elements of the source, and no
  sequence of later calls of \<^verbatim>\<open>push_back\<close>, \<^verbatim>\<open>pop_back\<close>, \<^verbatim>\<open>insert\<close>, \<^verbatim>\<open>erase\<close> and
  \<^verbatim>\<open>clear\<close> (with arguments outside the two containers) and element assignments on one
  of the two changes the elements of the other.
\<close>

theorem copy_correct:
  assumes "holds st other xs"
  shows "(new \<noteq> other \<longrightarrow>
            (\<exists>st'. vector_copy new other st = Some st' \<and> deep_copy st' new other xs)) \<and>
         (holds st this ys \<and> separate st this other \<longrightarrow>
            (\<exists>st'. operator_assign this other st = Some (Inr this, st') \<and>
               deep_copy st' this other xs))"
proof (intro conjI impI)
  assume "new \<noteq> other"
  from vector_copy_post[OF assms this] obtain st' where
    "vector_copy new other st = Some st'" "holds st' new xs" "holds st' other xs"
    "capacity st' new = Some (length xs)" "separate st' new other"
    by blast
  then show "\<exists>st'. vector_copy new other st = Some st' \<and> deep_copy st' new other xs"
    using deep_copyI by blast
next
  assume a: "holds st this ys \<and> separate st this other"
  then have "holds st this ys" "separate st this other" by simp_all
  from operator_assign_post[OF this(1) assms this(2)] obtain st' where
    "operator_assign this other st = Some (Inr this, st')" "holds st' this xs"
    "holds st' other xs" "capacity st' this = Some (length xs)" "separate st' this other"
    by blast
  then show "\<exists>st'. operator_assign this other st = Some (Inr this, st') \<and>
      deep_copy st' this other xs"
    using deep_copyI by blast
qed

theorem copy_correct_witness:
  "holds st_two 1 [7] \<and> holds st_two 0 [1, 2] \<and> separate st_two 0 1 \<and>
   (\<exists>st'. vector_copy 2 1 st_two = Some st' \<and> deep_copy st' 2 1 [7]) \<and>
   (\<exists>st'. operator_assign 0 1 st_two = Some (Inr 0, st') \<and> deep_copy st' 0 1 [7])"
  using copy_correct[of st_two 1 "[7]" 2 0 "[1, 2]"] holds_st_two
  by simp

text \<open>
  C10. The copy assignment of a container to itself returns the container and leaves
  the whole state as it was: the element sequence, the size and the capacity are unchanged.
\<close>

theorem self_assignment_unchanged:
  "operator_assign this this st = Some (Inr this, st)"
  by (simp add: operator_assign_def)

end
